theory Spec2Isabelle
  imports Complex_Main "HOL-Library.AList" "HOL-Library.Multiset"
begin

section \<open>Python values, errors and dictionaries\<close>

text \<open>
  The notebook \<^verbatim>\<open>11_shared-clonotype-properties.ipynb\<close> is Python. Exceptions
  are values of \<open>py_error\<close>; a call that may raise returns \<open>py_error + 'a\<close>
  with \<open>Inl\<close> the exception. A \<^verbatim>\<open>dict\<close> is an association list
  with distinct keys in insertion order: \<open>map_of\<close> reads it and \<open>AList.update\<close>
  is the assignment \<^verbatim>\<open>d[k] = v\<close> (in place for a key that exists, appended
  otherwise).
\<close>

datatype py_error = IndexError | ValueError | TypeError | KeyError

type_synonym ('k, 'v) dict = "('k \<times> 'v) list"

definition getitem :: "('k, 'v) dict \<Rightarrow> 'k \<Rightarrow> py_error + 'v" where
  "getitem d k = (case map_of d k of None \<Rightarrow> Inl KeyError | Some v \<Rightarrow> Inr v)"

text \<open>
  \<^verbatim>\<open>xs[i]\<close> for a non-negative index on a list: \<^verbatim>\<open>IndexError\<close>
  out of range.
\<close>

definition list_getitem :: "'a list \<Rightarrow> nat \<Rightarrow> py_error + 'a" where
  "list_getitem xs i = (if i < length xs then Inr (xs ! i) else Inl IndexError)"

section \<open>Reading rows: \<^verbatim>\<open>str.split\<close> and \<^verbatim>\<open>int\<close>\<close>

text \<open>
  \<^verbatim>\<open>line.strip().split()\<close> cuts a line at runs of whitespace and returns
  no empty field. The whitespace characters of \<^verbatim>\<open>str\<close> in the ASCII range
  are tab, line feed, vertical tab, form feed, carriage return, the four separators
  0x1C to 0x1F and the space. Characters are bytes here, so whitespace beyond ASCII is
  outside the model.
\<close>

definition is_space :: "char \<Rightarrow> bool" where
  "is_space c \<longleftrightarrow> (of_char c :: nat) \<in> {9, 10, 11, 12, 13, 28, 29, 30, 31, 32}"

fun split_from :: "string \<Rightarrow> string \<Rightarrow> string list" where
  "split_from w [] = (if w = [] then [] else [w])"
| "split_from w (c # cs) =
     (if is_space c then (if w = [] then split_from [] cs else w # split_from [] cs)
      else split_from (w @ [c]) cs)"

definition py_split :: "string \<Rightarrow> string list" where
  "py_split line = split_from [] line"

text \<open>
  \<^verbatim>\<open>int(s)\<close> on a string without surrounding whitespace (a field of
  \<^verbatim>\<open>split\<close> has none): an optional sign, then decimal digits, with single
  underscores allowed between digits (Python 3.6). Anything else raises
  \<^verbatim>\<open>ValueError\<close>. Digits beyond ASCII are outside the model.
\<close>

definition is_digit :: "char \<Rightarrow> bool" where
  "is_digit c \<longleftrightarrow> 48 \<le> (of_char c :: nat) \<and> (of_char c :: nat) \<le> 57"

definition digit_val :: "char \<Rightarrow> int" where
  "digit_val c = int (of_char c) - 48"

fun parse_digits :: "int \<Rightarrow> string \<Rightarrow> int option" where
  "parse_digits acc [] = Some acc"
| "parse_digits acc (c # cs) =
     (if is_digit c then parse_digits (10 * acc + digit_val c) cs
      else if c = CHR ''_'' then
        (case cs of [] \<Rightarrow> None
         | d # _ \<Rightarrow> if is_digit d then parse_digits acc cs else None)
      else None)"

definition parse_unsigned :: "string \<Rightarrow> int option" where
  "parse_unsigned s =
     (case s of [] \<Rightarrow> None
      | c # _ \<Rightarrow> if is_digit c then parse_digits 0 s else None)"

definition py_int :: "string \<Rightarrow> py_error + int" where
  "py_int s =
     (case (case s of
              [] \<Rightarrow> None
            | c # r \<Rightarrow>
                if c = CHR ''-'' then map_option uminus (parse_unsigned r)
                else if c = CHR ''+'' then parse_unsigned r
                else parse_unsigned s) of
        None \<Rightarrow> Inl ValueError
      | Some n \<Rightarrow> Inr n)"

section \<open>\<^verbatim>\<open>get_sequences\<close>: building the pools\<close>

text \<open>
  The pools of one file: group label (\<^verbatim>\<open>'shared'\<close>, \<^verbatim>\<open>'unshared'\<close>)
  to CDR3 length to the list of sequences.
\<close>

type_synonym pool = "(nat, string list) dict"
type_synonym pools = "(string, pool) dict"

text \<open>
  \<^verbatim>\<open>seqs = {'shared': {i: [] for i in range(7, 15)},
        'unshared': {i: [] for i in range(7, 15)}}\<close>
\<close>

definition empty_pool :: pool where
  "empty_pool = map (\<lambda>i. (i, [])) [7..<15]"

definition empty_seqs :: pools where
  "empty_seqs = [(''shared'', empty_pool), (''unshared'', empty_pool)]"

text \<open>
  The group of a tag: \<^verbatim>\<open>c == 1\<close> is unshared, \<^verbatim>\<open>c in range(6, 11)\<close>
  is shared, any other tag takes the \<^verbatim>\<open>continue\<close> (\<open>None\<close>).
\<close>

definition tag_group :: "int \<Rightarrow> string option" where
  "tag_group c =
     (if c = 1 then Some ''unshared''
      else if 6 \<le> c \<and> c < 11 then Some ''shared''
      else None)"

text \<open>
  \<^verbatim>\<open>seqs[s][l].append(aa)\<close>: the two lookups raise \<^verbatim>\<open>KeyError\<close> on a
  missing key.
\<close>

definition append_seq :: "pools \<Rightarrow> string \<Rightarrow> nat \<Rightarrow> string \<Rightarrow> py_error + pools" where
  "append_seq seqs s l aa =
     (case getitem seqs s of
        Inl e \<Rightarrow> Inl e
      | Inr d \<Rightarrow>
          (case getitem d l of
             Inl e \<Rightarrow> Inl e
           | Inr bucket \<Rightarrow> Inr (AList.update s (AList.update l (bucket @ [aa]) d) seqs)))"

text \<open>
  The body of the \<^verbatim>\<open>try\<close> block for one non-empty row: every exception it
  raises is returned, the \<^verbatim>\<open>continue\<close> statements return the pools
  unchanged.
\<close>

definition try_row :: "pools \<Rightarrow> string list \<Rightarrow> py_error + pools" where
  "try_row seqs sline =
     (case list_getitem sline 0 of
        Inl e \<Rightarrow> Inl e
      | Inr tag \<Rightarrow>
          (case py_int tag of
             Inl e \<Rightarrow> Inl e
           | Inr c \<Rightarrow>
               (case tag_group c of
                  None \<Rightarrow> Inr seqs
                | Some s \<Rightarrow>
                    (case list_getitem sline 3 of
                       Inl e \<Rightarrow> Inl e
                     | Inr aa \<Rightarrow>
                         (let l = length aa in
                          if \<not> (7 \<le> l \<and> l < 15) then Inr seqs
                          else append_seq seqs s l aa)))))"

text \<open>
  One iteration of \<^verbatim>\<open>for line in f\<close>: an empty row is skipped before the
  \<^verbatim>\<open>try\<close>; \<^verbatim>\<open>except IndexError: continue\<close> catches that one exception
  and no other.
\<close>

definition read_row :: "pools \<Rightarrow> string \<Rightarrow> py_error + pools" where
  "read_row seqs line =
     (let sline = py_split line in
      if sline = [] then Inr seqs
      else (case try_row seqs sline of
              Inl IndexError \<Rightarrow> Inr seqs
            | Inl e \<Rightarrow> Inl e
            | Inr seqs' \<Rightarrow> Inr seqs'))"

fun read_rows :: "pools \<Rightarrow> string list \<Rightarrow> py_error + pools" where
  "read_rows seqs [] = Inr seqs"
| "read_rows seqs (line # f) =
     (case read_row seqs line of
        Inl e \<Rightarrow> Inl e
      | Inr seqs' \<Rightarrow> read_rows seqs' f)"

text \<open>
  Lines 56 to 77 of the notebook for one file, given as its lines: the operation the
  specification calls \<^verbatim>\<open>build_pools\<close>.
\<close>

definition build_pools :: "string list \<Rightarrow> py_error + pools" where
  "build_pools f = read_rows empty_seqs f"


text \<open>The bucket of a group and a length, \<open>None\<close> when either key is missing.\<close>

definition bucket :: "pools \<Rightarrow> string \<Rightarrow> nat \<Rightarrow> string list option" where
  "bucket p s l = (case map_of p s of None \<Rightarrow> None | Some d \<Rightarrow> map_of d l)"

text \<open>
  The shape every pools dictionary of \<open>build_pools\<close> has: the two groups, each with
  the keys 7 to 14.
\<close>

definition pools_shape :: "pools \<Rightarrow> bool" where
  "pools_shape p \<longleftrightarrow>
     map fst p = [''shared'', ''unshared''] \<and> (\<forall>d \<in> snd ` set p. map fst d = [7..<15])"

text \<open>A row is blank, or its first field is an integer literal.\<close>

definition numeric_tag :: "string \<Rightarrow> bool" where
  "numeric_tag line \<longleftrightarrow>
     (py_split line = [] \<or> (case py_int (py_split line ! 0) of Inl _ \<Rightarrow> False | Inr _ \<Rightarrow> True))"

subsection \<open>The specification's description of \<^verbatim>\<open>build_pools\<close>\<close>

text \<open>
  Written from the specification's words, to be compared with \<open>build_pools\<close>: the
  classifier sends tag 1 to unshared and a tag in the closed range 6 to 10 to shared; a
  record is kept for the bucket \<open>(s, l)\<close> when it has the sequence field, its tag
  classifies to \<open>s\<close> and its sequence has length \<open>l\<close> inside the closed range 7 to
  14; the bucket holds the sequences of the kept records in input order.
\<close>

definition spec_classify :: "int \<Rightarrow> string option" where
  "spec_classify tag =
     (if tag = 1 then Some ''unshared''
      else if tag \<in> {6..10} then Some ''shared''
      else None)"

definition spec_accepts :: "string \<Rightarrow> nat \<Rightarrow> string \<Rightarrow> bool" where
  "spec_accepts s l line \<longleftrightarrow>
     (let fields = py_split line in
      4 \<le> length fields \<and>
      (case py_int (fields ! 0) of Inl _ \<Rightarrow> False | Inr tag \<Rightarrow> spec_classify tag = Some s) \<and>
      length (fields ! 3) = l \<and> 7 \<le> l \<and> l \<le> 14)"

definition spec_bucket :: "string list \<Rightarrow> string \<Rightarrow> nat \<Rightarrow> string list" where
  "spec_bucket f s l = map (\<lambda>line. py_split line ! 3) (filter (spec_accepts s l) f)"

text \<open>The four rows of the specification's example.\<close>

definition example_rows :: "string list" where
  "example_rows = [''1 x x AAAAAAA'', ''6 x x CCCCCCC'', ''3 x x GGGGGGG'', ''1 x x TT'']"

section \<open>\<^verbatim>\<open>get_sequences\<close>: downselecting the pools\<close>

text \<open>
  A loop whose body may raise: the first exception ends it.
\<close>

fun for_each :: "('st \<Rightarrow> 'x \<Rightarrow> py_error + 'st) \<Rightarrow> 'x list \<Rightarrow> 'st \<Rightarrow> py_error + 'st" where
  "for_each body [] st = Inr st"
| "for_each body (x # xs) st =
     (case body st x of
        Inl e \<Rightarrow> Inl e
      | Inr st' \<Rightarrow> for_each body xs st')"

text \<open>
  \<^verbatim>\<open>np.random.choice(a, size=k, replace=False)\<close> reads numpy's global generator.
  The generator is a state \<open>'g\<close> passed through explicitly, and its one primitive used
  here, \<^verbatim>\<open>permutation(n)\<close>, is a parameter: numpy takes the first \<open>k\<close> entries of a
  permutation of \<^verbatim>\<open>range(len(a))\<close> as the indices of the sample. The two
  \<^verbatim>\<open>ValueError\<close>s are numpy's: an empty population, and a sample larger than the
  population.
\<close>

type_synonym 'g permutation = "'g \<Rightarrow> nat \<Rightarrow> nat list \<times> 'g"

definition np_random_choice ::
  "'g permutation \<Rightarrow> 'g \<Rightarrow> 'a list \<Rightarrow> nat \<Rightarrow> py_error + ('a list \<times> 'g)" where
  "np_random_choice permutation g a k =
     (if length a = 0 then Inl ValueError
      else if k > length a then Inl ValueError
      else (case permutation g (length a) of
              (idx, g') \<Rightarrow> Inr (map (\<lambda>i. a ! i) (take k idx), g')))"

text \<open>What numpy's \<^verbatim>\<open>permutation\<close> guarantees: a permutation of \<^verbatim>\<open>range(n)\<close>.\<close>

definition is_permutation :: "'g permutation \<Rightarrow> bool" where
  "is_permutation permutation \<longleftrightarrow>
     (\<forall>g n. mset (fst (permutation g n)) = mset [0..<n])"

text \<open>\<^verbatim>\<open>len(all_seqs[seq_type][t][length])\<close>\<close>

definition bucket_len :: "pools \<Rightarrow> string \<Rightarrow> nat \<Rightarrow> py_error + nat" where
  "bucket_len seqs t l =
     (case getitem seqs t of
        Inl e \<Rightarrow> Inl e
      | Inr d \<Rightarrow> (case getitem d l of Inl e \<Rightarrow> Inl e | Inr s \<Rightarrow> Inr (length s)))"

text \<open>
  \<^verbatim>\<open>num_seqs = min([len(all_seqs[seq_type][t][length]) for t in ['shared', 'unshared']])\<close>
\<close>

definition num_seqs :: "pools \<Rightarrow> nat \<Rightarrow> py_error + nat" where
  "num_seqs seqs l =
     (case bucket_len seqs ''shared'' l of
        Inl e \<Rightarrow> Inl e
      | Inr a \<Rightarrow>
          (case bucket_len seqs ''unshared'' l of
             Inl e \<Rightarrow> Inl e
           | Inr b \<Rightarrow> Inr (min_list [a, b])))"

text \<open>
  The body of \<^verbatim>\<open>for shared_type in ['shared', 'unshared']\<close>: the state is the
  dictionary \<^verbatim>\<open>selected_seqs[seq_type]\<close> and the generator.
\<close>

definition select_bucket ::
  "'g permutation \<Rightarrow> pools \<Rightarrow> nat \<Rightarrow> nat \<Rightarrow> pools \<times> 'g \<Rightarrow> string \<Rightarrow> py_error + (pools \<times> 'g)" where
  "select_bucket permutation seqs l n st shared_type =
     (case st of (selected, g) \<Rightarrow>
      (case getitem seqs shared_type of
         Inl e \<Rightarrow> Inl e
       | Inr d \<Rightarrow>
           (case getitem d l of
              Inl e \<Rightarrow> Inl e
            | Inr s \<Rightarrow>
                (case (if length s > n then np_random_choice permutation g s n
                       else Inr (s, g)) of
                   Inl e \<Rightarrow> Inl e
                 | Inr (s', g') \<Rightarrow>
                     (case getitem selected shared_type of
                        Inl e \<Rightarrow> Inl e
                      | Inr sel \<Rightarrow>
                          Inr (AList.update shared_type (AList.update l s' sel) selected,
                               g'))))))"

text \<open>The body of \<^verbatim>\<open>for length in range(7, 15)\<close>.\<close>

definition select_length ::
  "'g permutation \<Rightarrow> pools \<Rightarrow> pools \<times> 'g \<Rightarrow> nat \<Rightarrow> py_error + (pools \<times> 'g)" where
  "select_length permutation seqs st l =
     (case num_seqs seqs l of
        Inl e \<Rightarrow> Inl e
      | Inr n \<Rightarrow> for_each (select_bucket permutation seqs l n) [''shared'', ''unshared''] st)"

text \<open>
  Lines 80 to 88 for one \<^verbatim>\<open>seq_type\<close>, from
  \<^verbatim>\<open>selected_seqs[seq_type] = {'shared': {}, 'unshared': {}}\<close>: the operation the
  specification calls \<^verbatim>\<open>balance_pools\<close>.
\<close>

definition balance_pools ::
  "'g permutation \<Rightarrow> pools \<Rightarrow> 'g \<Rightarrow> py_error + (pools \<times> 'g)" where
  "balance_pools permutation seqs g =
     for_each (select_length permutation seqs) [7..<15]
       ([(''shared'', []), (''unshared'', [])], g)"

text \<open>
  \<^verbatim>\<open>get_sequences\<close> as a whole. The files are given as the dictionary from
  \<^verbatim>\<open>seq_type\<close> to the lines of the file. The first loop reads every file; the
  second one runs over the two fixed labels and raises \<^verbatim>\<open>KeyError\<close> when the
  files have no such label.
\<close>

fun read_files ::
  "(string, string list) dict \<Rightarrow> (string, pools) dict \<Rightarrow> py_error + (string, pools) dict" where
  "read_files [] all_seqs = Inr all_seqs"
| "read_files ((seq_type, f) # seq_files) all_seqs =
     (case build_pools f of
        Inl e \<Rightarrow> Inl e
      | Inr seqs \<Rightarrow> read_files seq_files (AList.update seq_type seqs all_seqs))"

definition select_type ::
  "'g permutation \<Rightarrow> (string, pools) dict \<Rightarrow> (string, pools) dict \<times> 'g \<Rightarrow> string \<Rightarrow>
   py_error + ((string, pools) dict \<times> 'g)" where
  "select_type permutation all_seqs st seq_type =
     (case st of (selected_seqs, g) \<Rightarrow>
      (case getitem all_seqs seq_type of
         Inl e \<Rightarrow> Inl e
       | Inr seqs \<Rightarrow>
           (case balance_pools permutation seqs g of
              Inl e \<Rightarrow> Inl e
            | Inr (selected, g') \<Rightarrow> Inr (AList.update seq_type selected selected_seqs, g'))))"

definition get_sequences ::
  "'g permutation \<Rightarrow> (string, string list) dict \<Rightarrow> 'g \<Rightarrow>
   py_error + ((string, pools) dict \<times> (string, pools) dict \<times> 'g)" where
  "get_sequences permutation seq_files g =
     (case read_files seq_files [] of
        Inl e \<Rightarrow> Inl e
      | Inr all_seqs \<Rightarrow>
          (case for_each (select_type permutation all_seqs)
                  [''observed'', ''subject-specific synthetic'']
                  (map (\<lambda>t. (t, [(''shared'', []), (''unshared'', [])])) (map fst all_seqs), g) of
             Inl e \<Rightarrow> Inl e
           | Inr (selected_seqs, g') \<Rightarrow> Inr (all_seqs, selected_seqs, g')))"

text \<open>
  The positions \<^verbatim>\<open>np.random.choice\<close> takes from a population of \<open>m\<close> at the state
  \<open>g\<close> of the generator, and what the loop stores for a bucket \<open>b\<close> with the minimum
  \<open>n\<close>: the sequences at the positions numpy takes at some state of the generator when
  the bucket is above \<open>n\<close>, the bucket itself otherwise.
\<close>

definition choice_indices :: "'g permutation \<Rightarrow> 'g \<Rightarrow> nat \<Rightarrow> nat \<Rightarrow> nat list" where
  "choice_indices permutation g m k = take k (fst (permutation g m))"

definition drawn :: "'g permutation \<Rightarrow> 'a list \<Rightarrow> nat \<Rightarrow> 'a list \<Rightarrow> bool" where
  "drawn permutation b n b' \<longleftrightarrow>
     (\<exists>g. b' = map (\<lambda>i. b ! i) (choice_indices permutation g (length b) n))"

definition selected_from :: "'g permutation \<Rightarrow> 'a list \<Rightarrow> nat \<Rightarrow> 'a list \<Rightarrow> bool" where
  "selected_from permutation b n b' \<longleftrightarrow>
     (if length b > n then drawn permutation b n b' else b' = b)"

text \<open>
  The two buckets of a length in \<open>selected\<close> are the ones stored for the two buckets of
  that length in \<open>seqs\<close>, with the smaller of their two sizes as the minimum.
\<close>

definition length_selected :: "'g permutation \<Rightarrow> pools \<Rightarrow> pools \<Rightarrow> nat \<Rightarrow> bool" where
  "length_selected permutation seqs selected l \<longleftrightarrow>
     (\<exists>bs bu bs' bu'.
        bucket seqs ''shared'' l = Some bs \<and> bucket seqs ''unshared'' l = Some bu \<and>
        bucket selected ''shared'' l = Some bs' \<and> bucket selected ''unshared'' l = Some bu' \<and>
        selected_from permutation bs (min (length bs) (length bu)) bs' \<and>
        selected_from permutation bu (min (length bs) (length bu)) bu')"




text \<open>
  Two generators for examples. The state of the first is unused and every permutation is
  the reversal. The state of the second is the permutation it returns next (the reversal
  when the state is not a permutation of the range asked for): over the states that are
  the permutations of \<^verbatim>\<open>range(m)\<close> it is uniform.
\<close>

definition rev_permutation :: "unit permutation" where
  "rev_permutation g n = (rev [0..<n], g)"


text \<open>
  The pools of the specification's example of balancing, ten unshared and two shared
  sequences of length 7, with three unshared and no shared sequence of length 8; every
  other bucket is empty.
\<close>

definition example_pools :: pools where
  "example_pools =
     [(''shared'', (7, [''TTTTTTA'', ''TTTTTTC'']) # map (\<lambda>i. (i, [])) [8..<15]),
      (''unshared'',
         (7, map (\<lambda>c. ''SSSSSS'' @ [c]) ''ACDEFGHIKL'') #
         (8, [''SSSSSSSA'', ''SSSSSSSC'', ''SSSSSSSD'']) # map (\<lambda>i. (i, [])) [9..<15])]"

section \<open>\<^verbatim>\<open>entropy\<close>\<close>

text \<open>
  \<^verbatim>\<open>Counter(residues)\<close> counts in one pass and keeps the symbols in the order of
  their first occurrence.
\<close>

definition count_one :: "'a \<Rightarrow> ('a, nat) dict \<Rightarrow> ('a, nat) dict" where
  "count_one x d = AList.update x (case map_of d x of None \<Rightarrow> 1 | Some c \<Rightarrow> c + 1) d"

definition Counter :: "'a list \<Rightarrow> ('a, nat) dict" where
  "Counter residues = fold count_one residues []"

text \<open>
  What \<^verbatim>\<open>.values()\<close> returns. The notebook's kernel is Python 3
  (\<^verbatim>\<open>language_info.version\<close> 3.6.4), where it is a view of the dictionary,
  \<^verbatim>\<open>dict_values\<close>, and not a sequence; in Python 2 it was a list.
\<close>

datatype py_values = dict_values "nat list" | py_list "nat list"

definition dict_values_of :: "('a, nat) dict \<Rightarrow> py_values" where
  "dict_values_of d = dict_values (map snd d)"

text \<open>
  \<^verbatim>\<open>np.asarray(v, dtype=np.float64)\<close>: a list becomes the array of its entries.
  A \<^verbatim>\<open>dict_values\<close> object has no \<^verbatim>\<open>__getitem__\<close>, so numpy takes it as one
  scalar and calls \<^verbatim>\<open>float\<close> on it, which raises \<^verbatim>\<open>TypeError\<close>.
  The 64-bit floats are modelled by the real numbers they approximate: rounding is outside
  the model.
\<close>

definition np_asarray_float64 :: "py_values \<Rightarrow> py_error + real list" where
  "np_asarray_float64 v =
     (case v of
        dict_values _ \<Rightarrow> Inl TypeError
      | py_list cs \<Rightarrow> Inr (map real cs))"

text \<open>
  Lines 134 to 138: from the array of counts to the returned value.
  \<^verbatim>\<open>counts[np.nonzero(counts)]\<close> keeps the non-zero counts.
\<close>

definition entropy_of_counts :: "nat \<Rightarrow> real list \<Rightarrow> real" where
  "entropy_of_counts n_residues counts =
     (let probs = map (\<lambda>c. c / real n_residues) (filter (\<lambda>c. c \<noteq> 0) counts);
          n_classes = length probs
      in if n_classes \<le> 1 then 0
         else - sum_list (map (\<lambda>p. p * ln p) probs) / ln (real n_classes))"

definition entropy :: "'a list \<Rightarrow> py_error + real" where
  "entropy residues =
     (let n_residues = length residues in
      if n_residues \<le> 1 then Inr 0
      else (case np_asarray_float64 (dict_values_of (Counter residues)) of
              Inl e \<Rightarrow> Inl e
            | Inr counts \<Rightarrow> Inr (entropy_of_counts n_residues counts)))"

text \<open>
  The same function with the counts given to numpy as a list, as Python 2 did and as
  \<^verbatim>\<open>list(Counter(residues).values())\<close> does in Python 3. It is not in the notebook;
  it isolates what the formula computes once the array of counts exists.
\<close>

definition entropy_with_list :: "'a list \<Rightarrow> py_error + real" where
  "entropy_with_list residues =
     (let n_residues = length residues in
      if n_residues \<le> 1 then Inr 0
      else (case np_asarray_float64 (py_list (map snd (Counter residues))) of
              Inl e \<Rightarrow> Inl e
            | Inr counts \<Rightarrow> Inr (entropy_of_counts n_residues counts)))"

section \<open>\<^verbatim>\<open>calculate_entropies\<close>\<close>

text \<open>One row of the table: the dictionary appended to \<^verbatim>\<open>edata\<close>.\<close>

record entropy_record =
  sample :: string
  seq_type :: string
  shannon_entropy :: real
  cdr3_length :: nat
  shared :: string

text \<open>
  \<^verbatim>\<open>zip(*seqs)\<close>: the position columns of the sequences (column \<open>i\<close> holds
  the symbol at index \<open>i\<close> of every sequence), as many as the shortest sequence has
  symbols, and none for no sequence.
\<close>

definition column :: "'a list list \<Rightarrow> nat \<Rightarrow> 'a list" where
  "column seqs i = map (\<lambda>s. s ! i) seqs"

definition zip_star :: "'a list list \<Rightarrow> 'a list list" where
  "zip_star seqs =
     (if seqs = [] then []
      else map (column seqs) [0..<min_list (map length seqs)])"

text \<open>
  \<^verbatim>\<open>xs[start:stop]\<close>: a negative bound counts from the end, and both bounds are
  clipped to the list.
\<close>

definition py_slice :: "int \<Rightarrow> int \<Rightarrow> 'a list \<Rightarrow> 'a list" where
  "py_slice start stop xs =
     (let n = int (length xs);
          a = (if start < 0 then max (start + n) 0 else min start n);
          b = (if stop < 0 then max (stop + n) 0 else min stop n)
      in take (nat (b - a)) (drop (nat a) xs))"

text \<open>\<^verbatim>\<open>'{} ({})'.format(seq_type, s)\<close>\<close>

definition sample_label :: "string \<Rightarrow> string \<Rightarrow> string" where
  "sample_label t s = t @ '' ('' @ s @ '')''"

text \<open>
  The dictionary built for one column, and the body of
  \<^verbatim>\<open>for residues in list(zip(*seqs))[3:-3]\<close>: the state is \<^verbatim>\<open>edata\<close>.
\<close>

definition entropy_row :: "string \<Rightarrow> string \<Rightarrow> nat \<Rightarrow> real \<Rightarrow> entropy_record" where
  "entropy_row t s l e =
     \<lparr>sample = sample_label t s, seq_type = t, shannon_entropy = e, cdr3_length = l,
      shared = s\<rparr>"

definition append_entropy ::
  "string \<Rightarrow> string \<Rightarrow> nat \<Rightarrow> entropy_record list \<Rightarrow> char list \<Rightarrow> py_error + entropy_record list" where
  "append_entropy t s l edata residues =
     (case entropy residues of
        Inl e \<Rightarrow> Inl e
      | Inr e \<Rightarrow> Inr (edata @ [entropy_row t s l e]))"

text \<open>The body of \<^verbatim>\<open>for l in seq_dict[s].keys()\<close>.\<close>

definition entropies_of_length ::
  "pools \<Rightarrow> string \<Rightarrow> string \<Rightarrow> entropy_record list \<Rightarrow> nat \<Rightarrow> py_error + entropy_record list" where
  "entropies_of_length seq_dict t s edata l =
     (case getitem seq_dict s of
        Inl e \<Rightarrow> Inl e
      | Inr d \<Rightarrow>
          (case getitem d l of
             Inl e \<Rightarrow> Inl e
           | Inr seqs \<Rightarrow>
               for_each (append_entropy t s l) (py_slice 3 (- 3) (zip_star seqs)) edata))"

text \<open>The body of \<^verbatim>\<open>for s in seq_dict.keys()\<close>.\<close>

definition entropies_of_group ::
  "pools \<Rightarrow> string \<Rightarrow> entropy_record list \<Rightarrow> string \<Rightarrow> py_error + entropy_record list" where
  "entropies_of_group seq_dict t edata s =
     (case getitem seq_dict s of
        Inl e \<Rightarrow> Inl e
      | Inr d \<Rightarrow> for_each (entropies_of_length seq_dict t s) (map fst d) edata)"

text \<open>
  \<^verbatim>\<open>calculate_entropies\<close>: the loops start from \<^verbatim>\<open>edata = []\<close> and the list is
  returned.
\<close>

definition calculate_entropies :: "pools \<Rightarrow> string \<Rightarrow> py_error + entropy_record list" where
  "calculate_entropies seq_dict t =
     for_each (entropies_of_group seq_dict t) (map fst seq_dict) []"

section \<open>Properties of \<^verbatim>\<open>build_pools\<close>\<close>

lemma pools_shape_empty: "pools_shape empty_seqs"
  by (simp add: pools_shape_def empty_seqs_def empty_pool_def comp_def)

lemma tag_group_spec: "tag_group c = spec_classify c"
  by (auto simp: tag_group_def spec_classify_def)

lemma tag_group_range: "tag_group c = Some s \<Longrightarrow> s = ''shared'' \<or> s = ''unshared''"
  by (auto simp: tag_group_def split: if_splits)

lemma pools_shape_cases:
  assumes "pools_shape p"
  obtains d1 d2 where "p = [(''shared'', d1), (''unshared'', d2)]"
    "map fst d1 = [7..<15]" "map fst d2 = [7..<15]"
proof -
  from assms have k: "map fst p = [''shared'', ''unshared'']"
    and v: "\<forall>d \<in> snd ` set p. map fst d = [7..<15]"
    by (simp_all add: pools_shape_def)
  from k obtain a b where p: "p = [a, b]" by (auto simp: map_eq_Cons_conv)
  with k have "fst a = ''shared''" "fst b = ''unshared''" by simp_all
  then obtain d1 d2 where ab: "a = (''shared'', d1)" "b = (''unshared'', d2)"
    by (cases a, cases b) auto
  with p v have "map fst d1 = [7..<15]" "map fst d2 = [7..<15]" by auto
  with p ab show thesis using that by blast
qed

lemma range_7_15: "l \<in> set [7..<15] \<longleftrightarrow> 7 \<le> l \<and> l < 15"
  by (simp only: set_upt atLeastLessThan_iff)

lemma map_of_keys_Some:
  "map fst d = ks \<Longrightarrow> k \<in> set ks \<Longrightarrow> \<exists>v. map_of d k = Some v"
  by (metis domD dom_map_of_conv_image_fst list.set_map)

lemma map_of_keys_None:
  "map fst d = ks \<Longrightarrow> k \<notin> set ks \<Longrightarrow> map_of d k = None"
  by (metis list.set_map map_of_eq_None_iff)

lemma update_same_keys:
  "k \<in> set (map fst d) \<Longrightarrow> map fst (AList.update k v d) = map fst d"
  by (simp add: update_keys)

lemma append_seq_shape:
  assumes "pools_shape p" "s = ''shared'' \<or> s = ''unshared''" "7 \<le> l" "l < 15"
  shows "\<exists>p'. append_seq p s l aa = Inr p' \<and> pools_shape p' \<and>
     (\<forall>s' l'. bucket p' s' l' =
        (if s' = s \<and> l' = l then map_option (\<lambda>b. b @ [aa]) (bucket p s l)
         else bucket p s' l'))"
proof -
  from assms(1) obtain d1 d2 where p: "p = [(''shared'', d1), (''unshared'', d2)]"
    and k1: "map fst d1 = [7..<15]" and k2: "map fst d2 = [7..<15]"
    by (rule pools_shape_cases)
  have l: "l \<in> set [7..<15]" using assms(3,4) by (simp only: range_7_15)
  from map_of_keys_Some[OF k1 l] obtain b1 where b1: "map_of d1 l = Some b1" by blast
  from map_of_keys_Some[OF k2 l] obtain b2 where b2: "map_of d2 l = Some b2" by blast
  have u1: "map fst (AList.update l v d1) = [7..<15]" for v
    using update_same_keys[of l d1 v] k1 l by simp
  have u2: "map fst (AList.update l v d2) = [7..<15]" for v
    using update_same_keys[of l d2 v] k2 l by simp
  from assms(2) show ?thesis
  proof
    assume s: "s = ''shared''"
    show ?thesis
      using b1 u1 k2
      by (auto simp: append_seq_def getitem_def p s pools_shape_def bucket_def update_conv')
  next
    assume s: "s = ''unshared''"
    show ?thesis
      using b2 u2 k1
      by (auto simp: append_seq_def getitem_def p s pools_shape_def bucket_def update_conv')
  qed
qed

lemma bucket_shape_Some:
  assumes "pools_shape p" "s = ''shared'' \<or> s = ''unshared''" "7 \<le> l" "l < 15"
  shows "\<exists>b. bucket p s l = Some b"
proof -
  from assms(1) obtain d1 d2 where p: "p = [(''shared'', d1), (''unshared'', d2)]"
    and k1: "map fst d1 = [7..<15]" and k2: "map fst d2 = [7..<15]"
    by (rule pools_shape_cases)
  have l: "l \<in> set [7..<15]" using assms(3,4) by (simp only: range_7_15)
  from map_of_keys_Some[OF k1 l] map_of_keys_Some[OF k2 l] assms(2) show ?thesis
    by (auto simp: bucket_def p)
qed

lemma bucket_shape_None:
  assumes "pools_shape p" "\<not> ((s = ''shared'' \<or> s = ''unshared'') \<and> 7 \<le> l \<and> l < 15)"
  shows "bucket p s l = None"
proof -
  from assms(1) obtain d1 d2 where p: "p = [(''shared'', d1), (''unshared'', d2)]"
    and k1: "map fst d1 = [7..<15]" and k2: "map fst d2 = [7..<15]"
    by (rule pools_shape_cases)
  show ?thesis
  proof (cases "s = ''shared'' \<or> s = ''unshared''")
    case False
    then show ?thesis by (simp add: bucket_def p)
  next
    case True
    with assms(2) have "l \<notin> set [7..<15]" by (simp only: range_7_15) simp
    from map_of_keys_None[OF k1 this] map_of_keys_None[OF k2 this] True show ?thesis
      by (auto simp: bucket_def p)
  qed
qed

lemma list_getitem_0: "xs \<noteq> [] \<Longrightarrow> list_getitem xs 0 = Inr (xs ! 0)"
  by (simp add: list_getitem_def)

lemma read_row_shape:
  assumes "pools_shape p" "numeric_tag line"
  shows "\<exists>p'. read_row p line = Inr p' \<and> pools_shape p' \<and>
     (\<forall>s l. bucket p' s l = map_option (\<lambda>b. b @ spec_bucket [line] s l) (bucket p s l))"
proof (cases "py_split line = []")
  case True
  then show ?thesis using assms(1)
    by (simp add: read_row_def spec_bucket_def spec_accepts_def option.map_ident)
next
  case ne: False
  with assms(2) obtain c where c: "py_int (py_split line ! 0) = Inr c"
    by (auto simp: numeric_tag_def split: sum.splits)
  show ?thesis
  proof (cases "tag_group c")
    case None
    then show ?thesis using assms(1) ne c
      by (simp add: read_row_def try_row_def list_getitem_0 spec_bucket_def spec_accepts_def
          tag_group_spec option.map_ident)
  next
    case (Some s)
    note s = this
    show ?thesis
    proof (cases "4 \<le> length (py_split line)")
      case False
      then show ?thesis using assms(1) ne c s
        by (simp add: read_row_def try_row_def list_getitem_0 list_getitem_def spec_bucket_def
            spec_accepts_def option.map_ident)
    next
      case len: True
      define aa where "aa = py_split line ! 3"
      show ?thesis
      proof (cases "7 \<le> length aa \<and> length aa < 15")
        case False
        then have "\<not> spec_accepts s' l' line" for s' l'
          by (auto simp: spec_accepts_def aa_def Let_def)
        then show ?thesis using assms(1) ne c s len False
          by (simp add: read_row_def try_row_def list_getitem_0 list_getitem_def spec_bucket_def
              option.map_ident aa_def Let_def)
      next
        case True
        from append_seq_shape[OF assms(1) tag_group_range[OF s], of "length aa" aa] True
        obtain p' where p': "append_seq p s (length aa) aa = Inr p'" "pools_shape p'"
          "\<forall>s' l'. bucket p' s' l' =
             (if s' = s \<and> l' = length aa then map_option (\<lambda>b. b @ [aa]) (bucket p s (length aa))
              else bucket p s' l')"
          by auto
        have rr: "read_row p line = Inr p'"
          using ne c s len True p'(1)
          by (simp add: read_row_def try_row_def list_getitem_0 list_getitem_def aa_def Let_def)
        have acc: "spec_accepts s' l' line \<longleftrightarrow> s' = s \<and> l' = length aa" for s' l'
          using c s len True
          by (auto simp: spec_accepts_def Let_def aa_def tag_group_spec)
        have "bucket p' s' l' = map_option (\<lambda>b. b @ spec_bucket [line] s' l') (bucket p s' l')"
          for s' l'
          using p'(3) by (simp add: spec_bucket_def acc aa_def option.map_ident)
        with rr p'(2) show ?thesis by blast
      qed
    qed
  qed
qed

lemma spec_bucket_Cons:
  "spec_bucket (line # f) s l = spec_bucket [line] s l @ spec_bucket f s l"
  by (simp add: spec_bucket_def)

lemma read_rows_shape:
  "pools_shape p \<Longrightarrow> \<forall>line \<in> set f. numeric_tag line \<Longrightarrow>
   \<exists>p'. read_rows p f = Inr p' \<and> pools_shape p' \<and>
     (\<forall>s l. bucket p' s l = map_option (\<lambda>b. b @ spec_bucket f s l) (bucket p s l))"
proof (induction f arbitrary: p)
  case Nil
  then show ?case by (simp add: spec_bucket_def option.map_ident)
next
  case (Cons line f)
  from read_row_shape[OF Cons.prems(1), of line] Cons.prems(2)
  obtain p1 where p1: "read_row p line = Inr p1" "pools_shape p1"
    "\<forall>s l. bucket p1 s l = map_option (\<lambda>b. b @ spec_bucket [line] s l) (bucket p s l)"
    by auto
  from Cons.IH[OF p1(2)] Cons.prems(2)
  obtain p2 where p2: "read_rows p1 f = Inr p2" "pools_shape p2"
    "\<forall>s l. bucket p2 s l = map_option (\<lambda>b. b @ spec_bucket f s l) (bucket p1 s l)"
    by auto
  have "bucket p2 s l = map_option (\<lambda>b. b @ spec_bucket (line # f) s l) (bucket p s l)" for s l
    by (simp add: p2(3) p1(3) spec_bucket_Cons[of line f] option.map_comp comp_def)
  with p1(1) p2(1,2) show ?case by auto
qed

lemma bucket_empty_seqs:
  "(s = ''shared'' \<or> s = ''unshared'') \<Longrightarrow> 7 \<le> l \<Longrightarrow> l < 15 \<Longrightarrow> bucket empty_seqs s l = Some []"
proof -
  assume a: "s = ''shared'' \<or> s = ''unshared''" "7 \<le> l" "l < 15"
  have "map_of empty_pool l = Some []"
    unfolding empty_pool_def using a(2,3)
    by (simp add: map_of_map_restrict restrict_map_def)
  with a(1) show ?thesis by (auto simp: bucket_def empty_seqs_def)
qed

lemma build_pools_example:
  "build_pools example_rows =
     Inr [(''shared'', [(7, [''CCCCCCC'']), (8, []), (9, []), (10, []), (11, []), (12, []),
                        (13, []), (14, [])]),
          (''unshared'', [(7, [''AAAAAAA'']), (8, []), (9, []), (10, []), (11, []), (12, []),
                          (13, []), (14, [])])]"
  by code_simp

lemma example_rows_numeric: "\<forall>line \<in> set example_rows. numeric_tag line"
  by code_simp

text \<open>
  C3. For every input whose non-blank rows carry an integer tag, \<open>build_pools\<close>
  returns pools with the two groups, and the bucket of a group and a length from 7 to 14
  holds, in input order, the sequence field of exactly the rows the specification keeps:
  those with the sequence field, whose tag classifies to the group (1 to unshared, 6 to 10
  to shared) and whose sequence has that length; there is no other bucket. On the four
  example rows the pools are unshared 7 with AAAAAAA and shared 7 with CCCCCCC, every
  other bucket empty.
\<close>

theorem build_pools_refines_spec:
  "((\<forall>line \<in> set f. numeric_tag line) \<longrightarrow>
      (\<exists>p. build_pools f = Inr p \<and> map fst p = [''shared'', ''unshared''] \<and>
        (\<forall>s l. bucket p s l =
           (if (s = ''shared'' \<or> s = ''unshared'') \<and> 7 \<le> l \<and> l \<le> 14
            then Some (spec_bucket f s l) else None)))) \<and>
   build_pools example_rows =
     Inr [(''shared'', [(7, [''CCCCCCC'']), (8, []), (9, []), (10, []), (11, []), (12, []),
                        (13, []), (14, [])]),
          (''unshared'', [(7, [''AAAAAAA'']), (8, []), (9, []), (10, []), (11, []), (12, []),
                          (13, []), (14, [])])]"
proof (intro conjI impI)
  assume tags: "\<forall>line \<in> set f. numeric_tag line"
  from read_rows_shape[OF pools_shape_empty tags]
  obtain p where p: "read_rows empty_seqs f = Inr p" "pools_shape p"
    "\<forall>s l. bucket p s l = map_option (\<lambda>b. b @ spec_bucket f s l) (bucket empty_seqs s l)"
    by blast
  have "bucket p s l =
      (if (s = ''shared'' \<or> s = ''unshared'') \<and> 7 \<le> l \<and> l \<le> 14
       then Some (spec_bucket f s l) else None)" for s l
  proof (cases "(s = ''shared'' \<or> s = ''unshared'') \<and> 7 \<le> l \<and> l < 15")
    case True
    then have "bucket empty_seqs s l = Some []" by (simp add: bucket_empty_seqs)
    with p(3) True show ?thesis by simp
  next
    case False
    from bucket_shape_None[OF p(2) False] False show ?thesis by auto
  qed
  with p(1,2) show "\<exists>p. build_pools f = Inr p \<and> map fst p = [''shared'', ''unshared''] \<and>
        (\<forall>s l. bucket p s l =
           (if (s = ''shared'' \<or> s = ''unshared'') \<and> 7 \<le> l \<and> l \<le> 14
            then Some (spec_bucket f s l) else None))"
    by (auto simp: build_pools_def pools_shape_def)
next
  show "build_pools example_rows =
     Inr [(''shared'', [(7, [''CCCCCCC'']), (8, []), (9, []), (10, []), (11, []), (12, []),
                        (13, []), (14, [])]),
          (''unshared'', [(7, [''AAAAAAA'']), (8, []), (9, []), (10, []), (11, []), (12, []),
                          (13, []), (14, [])])]"
    by (rule build_pools_example)
qed

theorem build_pools_refines_spec_witness:
  "list_all numeric_tag example_rows \<and>
   (\<exists>p. build_pools example_rows = Inr p \<and>
        bucket p ''unshared'' 7 = Some [''AAAAAAA''] \<and>
        bucket p ''shared'' 7 = Some [''CCCCCCC''] \<and>
        bucket p ''shared'' 8 = Some [] \<and>
        bucket p ''excluded'' 7 = None \<and>
        bucket p ''unshared'' 2 = None)"
proof -
  have u: "spec_bucket example_rows ''unshared'' 7 = [''AAAAAAA'']" by code_simp
  have s: "spec_bucket example_rows ''shared'' 7 = [''CCCCCCC'']" by code_simp
  have e: "spec_bucket example_rows ''shared'' 8 = []" by code_simp
  from build_pools_refines_spec[of example_rows] example_rows_numeric
  obtain p where p: "build_pools example_rows = Inr p"
    "\<forall>s l. bucket p s l =
       (if (s = ''shared'' \<or> s = ''unshared'') \<and> 7 \<le> l \<and> l \<le> 14
        then Some (spec_bucket example_rows s l) else None)"
    by blast
  from p(2) u s e have "bucket p ''unshared'' 7 = Some [''AAAAAAA'']"
    "bucket p ''shared'' 7 = Some [''CCCCCCC'']" "bucket p ''shared'' 8 = Some []"
    "bucket p ''excluded'' 7 = None" "bucket p ''unshared'' 2 = None"
    by simp_all
  with p(1) example_rows_numeric show ?thesis by (auto simp: list_all_iff)
qed

lemma read_rows_append:
  "read_rows p (xs @ ys) =
     (case read_rows p xs of Inl e \<Rightarrow> Inl e | Inr p' \<Rightarrow> read_rows p' ys)"
  by (induction xs arbitrary: p) (auto split: sum.splits)

lemma read_row_short:
  assumes "numeric_tag row" "length (py_split row) < 4"
  shows "read_row p row = Inr p"
proof (cases "py_split row = []")
  case True
  then show ?thesis by (simp add: read_row_def)
next
  case False
  with assms(1) obtain c where "py_int (py_split row ! 0) = Inr c"
    by (auto simp: numeric_tag_def split: sum.splits)
  with False assms(2) show ?thesis
    by (cases "tag_group c") (simp_all add: read_row_def try_row_def list_getitem_0 list_getitem_def)
qed

lemma read_row_not_numeric:
  assumes "\<not> numeric_tag row"
  shows "read_row p row = Inl ValueError"
proof -
  from assms have ne: "py_split row \<noteq> []"
    and "\<exists>e. py_int (py_split row ! 0) = Inl e"
    by (auto simp: numeric_tag_def split: sum.splits)
  then have "py_int (py_split row ! 0) = Inl ValueError"
    by (auto simp: py_int_def split: option.splits)
  with ne show ?thesis by (simp add: read_row_def try_row_def list_getitem_0)
qed

text \<open>Whatever the rows are, pools that \<open>build_pools\<close> returns have the shape.\<close>

lemma read_rows_Inr_shape:
  "pools_shape p \<Longrightarrow> read_rows p f = Inr p' \<Longrightarrow> pools_shape p'"
proof (induction f arbitrary: p)
  case Nil
  then show ?case by simp
next
  case (Cons line f)
  from Cons.prems(2) obtain p1 where p1: "read_row p line = Inr p1" "read_rows p1 f = Inr p'"
    by (cases "read_row p line") simp_all
  have "numeric_tag line"
  proof (rule ccontr)
    assume "\<not> numeric_tag line"
    from read_row_not_numeric[OF this, of p] p1(1) show False by simp
  qed
  from read_row_shape[OF Cons.prems(1) this] p1(1) have "pools_shape p1" by auto
  from Cons.IH[OF this p1(2)] show ?case .
qed

lemma build_pools_shape: "build_pools f = Inr p \<Longrightarrow> pools_shape p"
  unfolding build_pools_def by (rule read_rows_Inr_shape[OF pools_shape_empty])

text \<open>
  C4, as the claim states it, fails: the first field of the row \<^verbatim>\<open>abc x x AAAAAAA\<close>
  is not numeric, \<^verbatim>\<open>int\<close> raises \<^verbatim>\<open>ValueError\<close>, the handler catches
  \<^verbatim>\<open>IndexError\<close> only, and the row after it is never read.
\<close>

theorem non_numeric_tag_is_fatal:
  "build_pools [''abc x x AAAAAAA'', ''1 x x CCCCCCC''] = Inl ValueError \<and>
   build_pools [''1 x x CCCCCCC''] =
     Inr [(''shared'', [(7, []), (8, []), (9, []), (10, []), (11, []), (12, []),
                        (13, []), (14, [])]),
          (''unshared'', [(7, [''CCCCCCC'']), (8, []), (9, []), (10, []), (11, []), (12, []),
                          (13, []), (14, [])])]"
  by code_simp

text \<open>
  C4, amended. A blank row, or a row with an integer tag and fewer than four fields, is
  skipped: the result is the one of the input without that row, whatever the other rows
  are. A row whose first field is not an integer literal is not skipped: when the rows
  before it are read without an exception, \<open>build_pools\<close> ends with
  \<^verbatim>\<open>ValueError\<close>.
\<close>

theorem short_row_skipped:
  "(numeric_tag row \<and> length (py_split row) < 4 \<longrightarrow>
      build_pools (before @ row # after) = build_pools (before @ after)) \<and>
   (\<not> numeric_tag row \<longrightarrow>
      build_pools (before @ row # after) =
        (case build_pools before of Inl e \<Rightarrow> Inl e | Inr p \<Rightarrow> Inl ValueError))"
  by (auto simp: build_pools_def read_rows_append read_row_short read_row_not_numeric
      split: sum.splits)

theorem short_row_skipped_witness:
  "numeric_tag ''6 x'' \<and> length (py_split ''6 x'') < 4 \<and>
   build_pools ([''1 x x AAAAAAA''] @ ''6 x'' # [''6 x x CCCCCCC'']) =
     build_pools ([''1 x x AAAAAAA''] @ [''6 x x CCCCCCC'']) \<and>
   \<not> numeric_tag ''abc x x AAAAAAA'' \<and>
   build_pools ([''1 x x AAAAAAA''] @ ''abc x x AAAAAAA'' # [''6 x x CCCCCCC'']) = Inl ValueError"
proof -
  have a: "numeric_tag ''6 x''" by code_simp
  have b: "length (py_split ''6 x'') < 4" by code_simp
  have c: "\<not> numeric_tag ''abc x x AAAAAAA''" by code_simp
  have d: "\<not> isl (build_pools [''1 x x AAAAAAA''])" by code_simp
  from short_row_skipped[of "''6 x''" "[''1 x x AAAAAAA'']" "[''6 x x CCCCCCC'']"] a b
  have e: "build_pools ([''1 x x AAAAAAA''] @ ''6 x'' # [''6 x x CCCCCCC'']) =
     build_pools ([''1 x x AAAAAAA''] @ [''6 x x CCCCCCC''])"
    by blast
  from short_row_skipped[of "''abc x x AAAAAAA''" "[''1 x x AAAAAAA'']" "[''6 x x CCCCCCC'']"] c d
  have f: "build_pools ([''1 x x AAAAAAA''] @ ''abc x x AAAAAAA'' # [''6 x x CCCCCCC'']) =
      Inl ValueError"
    by (auto split: sum.splits)
  from a b c e f show ?thesis by blast
qed

section \<open>Properties of \<^verbatim>\<open>entropy\<close>\<close>

subsection \<open>\<^verbatim>\<open>Counter\<close>\<close>

lemma count_one_map_of:
  "map_of (count_one x d) y =
     (if y = x then Some (case map_of d x of None \<Rightarrow> 1 | Some c \<Rightarrow> c + 1) else map_of d y)"
  by (simp add: count_one_def update_conv')

lemma count_one_distinct: "distinct (map fst d) \<Longrightarrow> distinct (map fst (count_one x d))"
  by (simp add: count_one_def distinct_update)

lemma fold_count_one:
  "distinct (map fst d) \<Longrightarrow>
   distinct (map fst (fold count_one xs d)) \<and>
   (\<forall>y. map_of (fold count_one xs d) y =
      (case map_of d y of
         None \<Rightarrow> if y \<in> set xs then Some (count_list xs y) else None
       | Some c \<Rightarrow> Some (c + count_list xs y)))"
proof (induction xs arbitrary: d)
  case Nil
  then show ?case by (simp split: option.splits)
next
  case (Cons x xs)
  from Cons.IH[OF count_one_distinct[OF Cons.prems], of x]
  show ?case
    by (auto simp: count_one_map_of count_list_0_iff split: option.splits)
qed

lemma Counter_distinct: "distinct (map fst (Counter xs))"
  using fold_count_one[of "[]" xs] by (simp add: Counter_def)

lemma Counter_map_of:
  "map_of (Counter xs) y = (if y \<in> set xs then Some (count_list xs y) else None)"
  using fold_count_one[of "[]" xs] by (simp add: Counter_def)

lemma Counter_keys: "set (map fst (Counter xs)) = set xs"
proof -
  have "fst ` set (Counter xs) = dom (map_of (Counter xs))"
    by (simp add: dom_map_of_conv_image_fst)
  also have "\<dots> = set xs" by (auto simp: Counter_map_of dom_def)
  finally show ?thesis by simp
qed

lemma Counter_values: "map snd (Counter xs) = map (count_list xs) (map fst (Counter xs))"
proof -
  have "snd kv = count_list xs (fst kv)" if "kv \<in> set (Counter xs)" for kv
  proof -
    from that have "map_of (Counter xs) (fst kv) = Some (snd kv)"
      using map_of_is_SomeI[OF Counter_distinct[of xs], of "fst kv" "snd kv"] by simp
    then show ?thesis by (simp add: Counter_map_of split: if_splits)
  qed
  then show ?thesis by simp
qed

lemma Counter_length: "length (Counter xs) = card (set xs)"
  using distinct_card[OF Counter_distinct[of xs]] Counter_keys[of xs] by simp

lemma Counter_positive: "c \<in> set (map snd (Counter xs)) \<Longrightarrow> 0 < c"
proof -
  assume "c \<in> set (map snd (Counter xs))"
  then obtain k where "k \<in> set (map fst (Counter xs))" "c = count_list xs k"
    unfolding Counter_values by auto
  then show ?thesis using Counter_keys[of xs] count_list_0_iff[of xs k] by auto
qed

lemma Counter_sum: "sum_list (map snd (Counter xs)) = length xs"
proof -
  have "sum_list (map snd (Counter xs)) = sum (count_list xs) (set (map fst (Counter xs)))"
    unfolding Counter_values by (rule sum_list_distinct_conv_sum_set[OF Counter_distinct])
  also have "\<dots> = length xs" unfolding Counter_keys by (rule sum_count_set) simp_all
  finally show ?thesis .
qed

subsection \<open>The formula on a list of counts\<close>

text \<open>
  What lines 134 to 138 compute once the array of counts exists, over the reals: for
  probabilities \<open>p\<close> that are positive and sum to 1, \<open>- \<Sum> p ln p\<close> lies between 0
  and \<open>ln k\<close> for \<open>k\<close> of them (from \<open>ln x \<le> x - 1\<close>), so the normalised value lies
  between 0 and 1. \<open>entropy_with_list\<close> is \<^verbatim>\<open>entropy\<close> with the counts given to
  numpy as a list.
\<close>

lemma elem_le_sum_list:
  fixes xs :: "real list"
  shows "\<forall>x \<in> set xs. 0 \<le> x \<Longrightarrow> p \<in> set xs \<Longrightarrow> p \<le> sum_list xs"
proof (induction xs)
  case Nil
  then show ?case by simp
next
  case (Cons x xs)
  then have "0 \<le> sum_list xs" by (simp add: sum_list_nonneg)
  with Cons show ?case by auto
qed

lemma sum_list_affine:
  fixes ps :: "real list"
  shows "sum_list (map (\<lambda>p. p * a + b - p) ps) = a * sum_list ps + real (length ps) * b - sum_list ps"
  by (induction ps) (simp_all add: algebra_simps)

lemma term_bound:
  fixes p k :: real
  assumes "0 < p" "0 < k"
  shows "- (p * ln p) \<le> p * ln k + 1 / k - p"
proof -
  have "0 < 1 / (k * p)" using assms by simp
  from ln_le_minus_one[OF this] have "ln (1 / (k * p)) \<le> 1 / (k * p) - 1" .
  moreover have "ln (1 / (k * p)) = - ln k - ln p"
    using assms by (simp add: ln_div ln_mult_pos)
  ultimately have "- ln k - ln p \<le> 1 / (k * p) - 1" by simp
  then have "p * (- ln k - ln p) \<le> p * (1 / (k * p) - 1)"
    using assms(1) by (simp add: mult_le_cancel_left_pos)
  moreover have "p * (1 / (k * p) - 1) = 1 / k - p"
    using assms by (simp add: field_simps)
  ultimately show ?thesis by (simp add: algebra_simps)
qed

lemma shannon_bounds:
  fixes ps :: "real list"
  assumes pos: "\<forall>p \<in> set ps. 0 < p" and one: "sum_list ps = 1" and k: "2 \<le> length ps"
  shows "0 \<le> - sum_list (map (\<lambda>p. p * ln p) ps) / ln (real (length ps))"
    and "- sum_list (map (\<lambda>p. p * ln p) ps) / ln (real (length ps)) \<le> 1"
proof -
  have lnk: "0 < ln (real (length ps))" using k by (simp add: ln_gt_zero)
  have le1: "p \<le> 1" if "p \<in> set ps" for p
    using elem_le_sum_list[of ps p] pos that one by (auto intro: less_imp_le)
  have "p * ln p \<le> 0" if "p \<in> set ps" for p
  proof -
    from pos that have p: "0 < p" by blast
    with le1[OF that] have "ln p \<le> 0" by simp
    with p show ?thesis by (intro mult_nonneg_nonpos) simp_all
  qed
  then have "sum_list (map (\<lambda>p. p * ln p) ps) \<le> 0"
    by (intro sum_list_nonpos) auto
  then show "0 \<le> - sum_list (map (\<lambda>p. p * ln p) ps) / ln (real (length ps))"
    using lnk by (intro divide_nonneg_pos) simp_all
  have "sum_list (map (\<lambda>p. - (p * ln p)) ps)
      \<le> sum_list (map (\<lambda>p. p * ln (real (length ps)) + 1 / real (length ps) - p) ps)"
    using pos k by (intro sum_list_mono term_bound) auto
  also have "\<dots> = ln (real (length ps))"
  proof -
    from k have "ps \<noteq> []" by auto
    with one show ?thesis by (simp add: sum_list_affine)
  qed
  finally have "- sum_list (map (\<lambda>p. p * ln p) ps) \<le> ln (real (length ps))"
    by (simp add: uminus_sum_list_map comp_def)
  then show "- sum_list (map (\<lambda>p. p * ln p) ps) / ln (real (length ps)) \<le> 1"
    using lnk by (subst divide_le_eq_1_pos) assumption+
qed

lemma sum_list_divide:
  fixes cs :: "nat list"
  shows "sum_list (map (\<lambda>c. c / n) (map real cs)) = real (sum_list cs) / n"
  by (induction cs) (simp_all add: add_divide_distrib)

lemma entropy_of_counts_positive:
  assumes "\<forall>c \<in> set cs. 0 < c"
  shows "entropy_of_counts n (map real cs) =
     (if length cs \<le> 1 then 0
      else - sum_list (map (\<lambda>p. p * ln p) (map (\<lambda>c. c / real n) (map real cs)))
           / ln (real (length cs)))"
proof -
  have "filter (\<lambda>c. c \<noteq> 0) (map real cs) = map real cs"
    using assms by (auto simp: filter_id_conv)
  then show ?thesis unfolding entropy_of_counts_def Let_def by simp
qed

lemma entropy_with_list_eq:
  "entropy_with_list residues =
     Inr (if card (set residues) \<le> 1 then 0
          else - sum_list (map (\<lambda>p. p * ln p)
                 (map (\<lambda>c. c / real (length residues)) (map real (map snd (Counter residues)))))
               / ln (real (card (set residues))))"
proof -
  have pos: "\<forall>c \<in> set (map snd (Counter residues)). 0 < c"
    using Counter_positive[of _ residues] by blast
  have small: "card (set residues) \<le> 1" if "length residues \<le> 1"
    using that card_length[of residues] by simp
  have "entropy_with_list residues =
      (if length residues \<le> 1 then Inr 0
       else Inr (entropy_of_counts (length residues) (map real (map snd (Counter residues)))))"
    by (simp add: entropy_with_list_def np_asarray_float64_def Let_def)
  also have "\<dots> = Inr (if card (set residues) \<le> 1 then 0
          else - sum_list (map (\<lambda>p. p * ln p)
                 (map (\<lambda>c. c / real (length residues)) (map real (map snd (Counter residues)))))
               / ln (real (card (set residues))))"
    unfolding entropy_of_counts_positive[OF pos] using small
    by (simp add: Counter_length)
  finally show ?thesis .
qed

lemma entropy_with_list_bounds:
  "\<exists>e. entropy_with_list residues = Inr e \<and> 0 \<le> e \<and> e \<le> 1 \<and>
       (card (set residues) \<le> 1 \<longrightarrow> e = 0)"
proof (cases "card (set residues) \<le> 1")
  case True
  then show ?thesis unfolding entropy_with_list_eq by simp
next
  case False
  define ps where
    "ps = map (\<lambda>c. c / real (length residues)) (map real (map snd (Counter residues)))"
  have len: "length ps = card (set residues)" by (simp add: ps_def Counter_length)
  have n: "0 < length residues" using False by (cases residues) auto
  have pos: "\<forall>p \<in> set ps. 0 < p"
    using Counter_positive[of _ residues] n by (auto simp: ps_def)
  have one: "sum_list ps = 1"
    unfolding ps_def sum_list_divide Counter_sum using n by simp
  have k: "2 \<le> length ps" using False len by simp
  have "entropy_with_list residues =
      Inr (- sum_list (map (\<lambda>p. p * ln p) ps) / ln (real (length ps)))"
    unfolding entropy_with_list_eq ps_def[symmetric] len using False by simp
  with shannon_bounds[OF pos one k] False show ?thesis by blast
qed

lemma entropy_with_list_uniform4: "entropy_with_list ''ACGT'' = Inr 1"
proof -
  have c: "map snd (Counter ''ACGT'') = [1, 1, 1, 1]" by code_simp
  have k: "card (set ''ACGT'') = 4" by code_simp
  have l4: "ln (4::real) = 2 * ln 2"
    using ln_realpow[of 2 2] by simp
  show ?thesis
    unfolding entropy_with_list_eq c k
    by (simp add: ln_div l4)
qed

lemma entropy_with_list_dominant:
  "entropy_with_list ''AAAC'' = Inr (- (0.75 * ln 0.75 + 0.25 * ln 0.25) / ln 2)"
proof -
  have c: "map snd (Counter ''AAAC'') = [3, 1]" by code_simp
  have k: "card (set ''AAAC'') = 2" by code_simp
  show ?thesis
    unfolding entropy_with_list_eq c k
    by simp
qed

subsection \<open>The function of the notebook\<close>

lemma entropy_short: "length residues \<le> 1 \<Longrightarrow> entropy residues = Inr 0"
  by (simp add: entropy_def)

lemma entropy_long: "1 < length residues \<Longrightarrow> entropy residues = Inl TypeError"
  by (simp add: entropy_def Let_def np_asarray_float64_def dict_values_of_def)

text \<open>
  C1. The claim asks for a value between 0 and 1 for two or more distinct symbols and for
  the value 0 for one distinct symbol. On the column A, C and on the column A, A the
  function returns no value: \<^verbatim>\<open>np.asarray\<close> is given the \<^verbatim>\<open>dict_values\<close>
  view and raises \<^verbatim>\<open>TypeError\<close>. For no symbol and for one symbol it returns 0.
\<close>

theorem entropy_two_residues_raises:
  "entropy ''AC'' = Inl TypeError \<and> entropy ''AA'' = Inl TypeError \<and>
   entropy '''' = Inr 0 \<and> entropy ''A'' = Inr 0"
  by (simp add: entropy_long entropy_short)

text \<open>
  C2. On the two columns of the claim, A, C, G, T and A, A, A, C, the function raises
  \<^verbatim>\<open>TypeError\<close> before any probability is formed.
\<close>

theorem entropy_examples_raise:
  "entropy ''ACGT'' = Inl TypeError \<and> entropy ''AAAC'' = Inl TypeError"
  by (simp add: entropy_long)

text \<open>
  C7. The function is not total: it returns 0 for a column of at most one symbol and
  raises \<^verbatim>\<open>TypeError\<close> for every longer column.
\<close>

theorem entropy_raises_beyond_one:
  "entropy residues = (if length residues \<le> 1 then Inr 0 else Inl TypeError)"
  by (simp add: entropy_long entropy_short)

section \<open>Properties of \<^verbatim>\<open>calculate_entropies\<close>\<close>

lemma append_entropy_Inr:
  "entropy c = Inr e \<Longrightarrow> append_entropy t s l edata c = Inr (edata @ [entropy_row t s l e])"
  by (simp add: append_entropy_def)

lemma append_entropy_Inl:
  "entropy c = Inl e \<Longrightarrow> append_entropy t s l edata c = Inl e"
  by (simp add: append_entropy_def)

lemma for_each_append_entropy:
  "for_each (append_entropy t s l) cols edata = Inr edata' \<Longrightarrow>
   \<exists>es. length es = length cols \<and> (\<forall>j < length cols. entropy (cols ! j) = Inr (es ! j)) \<and>
        edata' = edata @ map (entropy_row t s l) es"
proof (induction cols arbitrary: edata)
  case Nil
  then show ?case by simp
next
  case (Cons c cols)
  from Cons.prems obtain e where e: "entropy c = Inr e"
    by (cases "entropy c") (simp_all add: append_entropy_Inl)
  with Cons.prems
  have r: "for_each (append_entropy t s l) cols (edata @ [entropy_row t s l e]) = Inr edata'"
    by (simp add: append_entropy_Inr)
  from Cons.IH[OF r] obtain es where es: "length es = length cols"
    "\<forall>j < length cols. entropy (cols ! j) = Inr (es ! j)"
    "edata' = (edata @ [entropy_row t s l e]) @ map (entropy_row t s l) es"
    by blast
  have "\<forall>j < length (c # cols). entropy ((c # cols) ! j) = Inr ((e # es) ! j)"
    using e es(2) by (auto simp: nth_Cons split: nat.splits)
  with es(1,3) show ?case by (intro exI[of _ "e # es"]) simp
qed

lemma for_each_append_entropy_short:
  "\<forall>c \<in> set cols. length c \<le> 1 \<Longrightarrow>
   for_each (append_entropy t s l) cols edata =
     Inr (edata @ replicate (length cols) (entropy_row t s l 0))"
proof (induction cols arbitrary: edata)
  case Nil
  then show ?case by simp
next
  case (Cons c cols)
  then show ?case
    by (simp add: append_entropy_Inr[OF entropy_short] replicate_app_Cons_same)
qed

lemma zip_star_uniform:
  assumes "seqs \<noteq> []" "\<forall>x \<in> set seqs. length x = L"
  shows "zip_star seqs = map (column seqs) [0..<L]"
proof -
  have "set (map length seqs) = {L}" using assms by (cases seqs) auto
  with assms(1) have "min_list (map length seqs) = L"
    by (simp add: min_list_Min del: set_map)
  with assms(1) show ?thesis by (simp add: zip_star_def)
qed

lemma py_slice_3_m3:
  "py_slice 3 (- 3) xs = take (length xs - 6) (drop 3 xs)"
  by (auto simp: py_slice_def Let_def max_def min_def intro!: arg_cong2[where f = take])

lemma interior_columns:
  assumes "seqs \<noteq> []" "\<forall>x \<in> set seqs. length x = L"
  shows "py_slice 3 (- 3) (zip_star seqs) = map (column seqs) [3..<L - 3]"
proof -
  have "take (L - 6) [3..<L] = [3..<L - 3]"
  proof (cases "L \<le> 6")
    case True
    then show ?thesis by simp
  next
    case False
    then have "take (L - 6) [3..<L] = [3..<3 + (L - 6)]" by (intro take_upt) simp
    with False show ?thesis by simp
  qed
  then have "take (L - 6) (drop 3 (map (column seqs) [0..<L])) = map (column seqs) [3..<L - 3]"
    by (simp add: take_map drop_map drop_upt)
  then show ?thesis
    by (simp add: py_slice_3_m3 zip_star_uniform[OF assms])
qed

lemma getitem_map_of: "map_of d k = Some v \<Longrightarrow> getitem d k = Inr v"
  by (simp add: getitem_def)

lemma entropies_of_length_bucket:
  assumes "map_of seq_dict s = Some d" "map_of d l = Some seqs"
  shows "entropies_of_length seq_dict t s edata l =
     for_each (append_entropy t s l) (py_slice 3 (- 3) (zip_star seqs)) edata"
  by (simp add: entropies_of_length_def getitem_map_of[OF assms(1)] getitem_map_of[OF assms(2)])

lemma for_each_invariant:
  assumes "for_each body xs st = Inr st'" "P st"
    and "\<And>x a b. x \<in> set xs \<Longrightarrow> P a \<Longrightarrow> body a x = Inr b \<Longrightarrow> P b"
  shows "P st'"
  using assms
proof (induction xs arbitrary: st)
  case Nil
  then show ?case by simp
next
  case (Cons x xs)
  from Cons.prems(1) obtain st1 where s1: "body st x = Inr st1" "for_each body xs st1 = Inr st'"
    by (cases "body st x") simp_all
  from Cons.prems(3)[of x st st1] Cons.prems(2) s1(1) have "P st1" by simp
  show ?case
  proof (rule Cons.IH[OF s1(2) \<open>P st1\<close>])
    fix y a b
    assume "y \<in> set xs" "P a" "body a y = Inr b"
    then show "P b" using Cons.prems(3)[of y a b] by simp
  qed
qed

lemma entropies_of_length_labels:
  assumes "entropies_of_length seq_dict t s edata l = Inr edata'"
  shows "\<exists>new. edata' = edata @ new \<and> (\<forall>r \<in> set new. shared r = s \<and> cdr3_length r = l)"
proof -
  from assms obtain d where d: "getitem seq_dict s = Inr d"
    by (cases "getitem seq_dict s") (simp_all add: entropies_of_length_def)
  with assms obtain seqs where q: "getitem d l = Inr seqs"
    by (cases "getitem d l") (simp_all add: entropies_of_length_def)
  from assms d q
  have "for_each (append_entropy t s l) (py_slice 3 (- 3) (zip_star seqs)) edata = Inr edata'"
    by (simp add: entropies_of_length_def)
  from for_each_append_entropy[OF this] obtain es
    where "edata' = edata @ map (entropy_row t s l) es" by blast
  then show ?thesis by (auto simp: entropy_row_def)
qed

lemma empty_bucket_no_record:
  assumes "map_of seq_dict s = Some d" "map_of d l = Some []"
  shows "entropies_of_length seq_dict t s edata l = Inr edata"
  by (simp add: entropies_of_length_bucket[OF assms] zip_star_def py_slice_def)

lemma calculate_entropies_skips_empty:
  assumes b: "map_of seq_dict s = Some d" "map_of d l = Some []"
    and run: "calculate_entropies seq_dict t = Inr table"
  shows "\<forall>r \<in> set table. \<not> (shared r = s \<and> cdr3_length r = l)"
proof -
  let ?P = "\<lambda>edata. \<forall>r \<in> set edata. \<not> (shared r = s \<and> cdr3_length r = l)"
  have len: "?P b'" if "?P a" "entropies_of_length seq_dict t s' a l' = Inr b'" for a b' s' l'
  proof (cases "s' = s \<and> l' = l")
    case True
    with that(2) empty_bucket_no_record[OF b, of t a] have "b' = a" by simp
    with that(1) show ?thesis by simp
  next
    case False
    from entropies_of_length_labels[OF that(2)] obtain new where
      "b' = a @ new" "\<forall>r \<in> set new. shared r = s' \<and> cdr3_length r = l'" by blast
    with that(1) False show ?thesis by auto
  qed
  have grp: "?P b'" if "?P a" "entropies_of_group seq_dict t a s' = Inr b'" for a b' s'
  proof -
    from that(2) obtain d' where "getitem seq_dict s' = Inr d'"
      by (cases "getitem seq_dict s'") (simp_all add: entropies_of_group_def)
    with that(2) have "for_each (entropies_of_length seq_dict t s') (map fst d') a = Inr b'"
      by (simp add: entropies_of_group_def)
    from for_each_invariant[of _ _ _ _ ?P, OF this that(1)] len show ?thesis by blast
  qed
  from run have "for_each (entropies_of_group seq_dict t) (map fst seq_dict) [] = Inr table"
    by (simp add: calculate_entropies_def)
  from for_each_invariant[of _ _ _ _ ?P, OF this] grp show ?thesis by simp
qed

lemma nonempty_bucket_records:
  assumes b: "map_of seq_dict s = Some d" "map_of d l = Some seqs"
    and ne: "seqs \<noteq> []" and len: "\<forall>x \<in> set seqs. length x = L"
    and run: "entropies_of_length seq_dict t s edata l = Inr edata'"
  shows "\<exists>es. length es = L - 6 \<and>
     (\<forall>j < L - 6. entropy (column seqs (j + 3)) = Inr (es ! j)) \<and>
     edata' = edata @ map (entropy_row t s l) es"
proof -
  from run have "for_each (append_entropy t s l) (map (column seqs) [3..<L - 3]) edata = Inr edata'"
    by (simp add: entropies_of_length_bucket[OF b] interior_columns[OF ne len])
  from for_each_append_entropy[OF this] obtain es where es:
    "length es = length (map (column seqs) [3..<L - 3])"
    "\<forall>j < length (map (column seqs) [3..<L - 3]).
        entropy (map (column seqs) [3..<L - 3] ! j) = Inr (es ! j)"
    "edata' = edata @ map (entropy_row t s l) es"
    by blast
  have n: "length (map (column seqs) [3..<L - 3]) = L - 6" by simp
  have "entropy (column seqs (j + 3)) = Inr (es ! j)" if "j < L - 6" for j
  proof -
    from that have "map (column seqs) [3..<L - 3] ! j = column seqs (3 + j)"
      by (simp del: upt_Suc)
    with es(2) that n show ?thesis by (simp add: add.commute del: upt_Suc)
  qed
  with es(1,3) n show ?thesis by auto
qed

lemma short_bucket_no_record:
  assumes b: "map_of seq_dict s = Some d" "map_of d l = Some seqs"
    and len: "\<forall>x \<in> set seqs. length x = L" and short: "seqs = [] \<or> L \<le> 6"
  shows "entropies_of_length seq_dict t s edata l = Inr edata"
proof (cases "seqs = []")
  case True
  with b show ?thesis by (simp add: empty_bucket_no_record)
next
  case False
  with short have "L \<le> 6" by simp
  then show ?thesis
    by (simp add: entropies_of_length_bucket[OF b] interior_columns[OF False len])
qed

lemma single_bucket_records:
  assumes b: "map_of seq_dict s = Some d" "map_of d l = Some [x]"
  shows "entropies_of_length seq_dict t s edata l =
     Inr (edata @ replicate (length x - 6) (entropy_row t s l 0))"
proof -
  have cols: "py_slice 3 (- 3) (zip_star [x]) = map (column [x]) [3..<length x - 3]"
    by (rule interior_columns) simp_all
  have "\<forall>c \<in> set (map (column [x]) [3..<length x - 3]). length c \<le> 1"
    by (simp add: column_def)
  from for_each_append_entropy_short[OF this, of t s l edata]
  show ?thesis by (simp add: entropies_of_length_bucket[OF b] cols del: upt_Suc)
qed

lemma for_each_error:
  assumes "for_each body xs st = Inl e'"
    and "\<And>a y e''. y \<in> set xs \<Longrightarrow> body a y = Inl e'' \<Longrightarrow> e'' = e"
  shows "e' = e"
  using assms
proof (induction xs arbitrary: st)
  case Nil
  then show ?case by simp
next
  case (Cons x xs)
  show ?case
  proof (cases "body st x")
    case (Inl e'')
    with Cons.prems(1) have "e'' = e'" by simp
    with Inl Cons.prems(2)[of x st e''] show ?thesis by simp
  next
    case (Inr st1)
    with Cons.prems(1) have "for_each body xs st1 = Inl e'" by simp
    then show ?thesis
    proof (rule Cons.IH)
      fix a y e''
      assume "y \<in> set xs" "body a y = Inl e''"
      then show "e'' = e" using Cons.prems(2)[of y a e''] by simp
    qed
  qed
qed

lemma for_each_raises:
  assumes "x \<in> set xs" "\<And>a. body a x = Inl e"
    and "\<And>a y e''. y \<in> set xs \<Longrightarrow> body a y = Inl e'' \<Longrightarrow> e'' = e"
  shows "for_each body xs st = Inl e"
  using assms
proof (induction xs arbitrary: st)
  case Nil
  then show ?case by simp
next
  case (Cons y xs)
  show ?case
  proof (cases "body st y")
    case (Inl e'')
    with Cons.prems(3)[of y st e''] show ?thesis by simp
  next
    case (Inr st1)
    with Cons.prems(2)[of st] have "x \<noteq> y" by auto
    with Cons.prems(1) have "x \<in> set xs" by simp
    then have "for_each body xs st1 = Inl e"
    proof (rule Cons.IH)
      show "body a x = Inl e" for a by (rule Cons.prems(2))
      show "e'' = e" if "z \<in> set xs" "body a z = Inl e''" for a z e''
        using Cons.prems(3)[of z a e''] that by simp
    qed
    with Inr show ?thesis by simp
  qed
qed

lemma entropy_error: "entropy residues = Inl e \<Longrightarrow> e = TypeError"
  by (cases "length residues \<le> 1") (simp_all add: entropy_short entropy_long)

lemma append_entropy_error: "append_entropy t s l a c = Inl e \<Longrightarrow> e = TypeError"
  by (cases "entropy c") (simp_all add: append_entropy_Inl append_entropy_Inr entropy_error)

lemma map_of_key_Some: "k \<in> set (map fst d) \<Longrightarrow> \<exists>v. map_of d k = Some v"
  by (rule map_of_keys_Some[OF refl])

lemma entropies_of_length_error:
  assumes "map_of seq_dict s = Some d" "l \<in> set (map fst d)"
    and "entropies_of_length seq_dict t s a l = Inl e"
  shows "e = TypeError"
proof -
  from map_of_key_Some[OF assms(2)] obtain seqs where q: "map_of d l = Some seqs" by blast
  from assms(3) have "for_each (append_entropy t s l) (py_slice 3 (- 3) (zip_star seqs)) a = Inl e"
    by (simp add: entropies_of_length_bucket[OF assms(1) q])
  then show ?thesis by (rule for_each_error) (rule append_entropy_error)
qed

lemma entropies_of_group_error:
  assumes "s \<in> set (map fst seq_dict)" "entropies_of_group seq_dict t a s = Inl e"
  shows "e = TypeError"
proof -
  from map_of_key_Some[OF assms(1)] obtain d where d: "map_of seq_dict s = Some d" by blast
  from assms(2) have "for_each (entropies_of_length seq_dict t s) (map fst d) a = Inl e"
    by (simp add: entropies_of_group_def getitem_map_of[OF d])
  then show ?thesis
    by (rule for_each_error) (rule entropies_of_length_error[OF d])
qed

lemma long_bucket_raises:
  assumes b: "map_of seq_dict s = Some d" "map_of d l = Some seqs"
    and two: "2 \<le> length seqs" and len: "\<forall>x \<in> set seqs. length x = L" and L: "7 \<le> L"
  shows "entropies_of_length seq_dict t s a l = Inl TypeError"
proof -
  from two have ne: "seqs \<noteq> []" by auto
  from L have "[3..<L - 3] = 3 # [4..<L - 3]" by (simp add: upt_conv_Cons)
  then have cols: "py_slice 3 (- 3) (zip_star seqs) =
      column seqs 3 # map (column seqs) [4..<L - 3]"
    by (simp add: interior_columns[OF ne len])
  from two have "entropy (column seqs 3) = Inl TypeError"
    by (intro entropy_long) (simp add: column_def)
  then show ?thesis
    by (simp add: entropies_of_length_bucket[OF b] cols append_entropy_Inl)
qed

lemma map_of_Some_key: "map_of d k = Some v \<Longrightarrow> k \<in> set (map fst d)"
  by (metis domI dom_map_of_conv_image_fst list.set_map)

text \<open>
  C6. The claim asks for one record for every interior position of the sequences of a
  length, so one record, for index 3, for sequences of length 7. For pools in which some
  bucket holds two or more sequences of a length of at least 7,
  \<^verbatim>\<open>calculate_entropies\<close> returns no table: the call of \<^verbatim>\<open>entropy\<close> on the first
  interior column of that bucket, or an earlier such call, raises \<^verbatim>\<open>TypeError\<close>.
\<close>

theorem calculate_entropies_raises:
  assumes "map_of seq_dict s = Some d" "map_of d l = Some seqs"
    and "2 \<le> length seqs" "\<forall>x \<in> set seqs. length x = L" "7 \<le> L"
  shows "calculate_entropies seq_dict t = Inl TypeError"
proof -
  have grp: "entropies_of_group seq_dict t a s = Inl TypeError" for a
    unfolding entropies_of_group_def getitem_map_of[OF assms(1)] sum.case
  proof (rule for_each_raises)
    show "l \<in> set (map fst d)" by (rule map_of_Some_key[OF assms(2)])
    show "entropies_of_length seq_dict t s a' l = Inl TypeError" for a'
      by (rule long_bucket_raises[OF assms])
    show "e'' = TypeError"
      if "y \<in> set (map fst d)" "entropies_of_length seq_dict t s a' y = Inl e''" for a' y e''
      using entropies_of_length_error[OF assms(1) that] .
  qed
  show ?thesis
    unfolding calculate_entropies_def
  proof (rule for_each_raises)
    show "s \<in> set (map fst seq_dict)" by (rule map_of_Some_key[OF assms(1)])
    show "entropies_of_group seq_dict t a s = Inl TypeError" for a by (rule grp)
    show "e'' = TypeError"
      if "y \<in> set (map fst seq_dict)" "entropies_of_group seq_dict t a y = Inl e''" for a y e''
      using entropies_of_group_error[OF that] .
  qed
qed

theorem calculate_entropies_raises_witness:
  "map_of [(''shared'', [(7, [''CASSLGY'', ''CASRRGY''])]),
           (''unshared'', [(7, [''CASTTGY'', ''CASQQGY''])])] ''shared'' =
     Some [(7, [''CASSLGY'', ''CASRRGY''])] \<and>
   map_of [(7 :: nat, [''CASSLGY'', ''CASRRGY''])] 7 = Some [''CASSLGY'', ''CASRRGY''] \<and>
   2 \<le> length [''CASSLGY'', ''CASRRGY''] \<and>
   list_all (\<lambda>x. length x = 7) [''CASSLGY'', ''CASRRGY''] \<and> (7 :: nat) \<le> 7 \<and>
   calculate_entropies
     [(''shared'', [(7, [''CASSLGY'', ''CASRRGY''])]),
      (''unshared'', [(7, [''CASTTGY'', ''CASQQGY''])])] ''observed'' = Inl TypeError"
proof -
  have a: "map_of [(''shared'', [(7 :: nat, [''CASSLGY'', ''CASRRGY''])]),
           (''unshared'', [(7, [''CASTTGY'', ''CASQQGY''])])] ''shared'' =
     Some [(7, [''CASSLGY'', ''CASRRGY''])]" by simp
  have b: "map_of [(7 :: nat, [''CASSLGY'', ''CASRRGY''])] 7 = Some [''CASSLGY'', ''CASRRGY'']"
    by simp
  have c: "2 \<le> length [''CASSLGY'', ''CASRRGY'']" by simp
  have d: "\<forall>x \<in> set [''CASSLGY'', ''CASRRGY'']. length x = 7" by simp
  have e: "(7 :: nat) \<le> 7" by simp
  from calculate_entropies_raises[OF a b c d e, of "''observed''"] a b c d
  show ?thesis by (simp add: list_all_iff)
qed

text \<open>
  C10. For a group and a length whose bucket is in the pools and holds no sequence, the
  loop over its columns appends nothing and raises nothing, and no record of a table
  \<^verbatim>\<open>calculate_entropies\<close> returns carries that group and that length.
\<close>

theorem empty_bucket_emits_nothing:
  assumes "map_of seq_dict s = Some d" "map_of d l = Some []"
  shows "entropies_of_length seq_dict t s edata l = Inr edata \<and>
    (\<forall>table. calculate_entropies seq_dict t = Inr table \<longrightarrow>
       (\<forall>r \<in> set table. \<not> (shared r = s \<and> cdr3_length r = l)))"
  using empty_bucket_no_record[OF assms] calculate_entropies_skips_empty[OF assms]
  by blast

theorem empty_bucket_emits_nothing_witness:
  "map_of [(''shared'', [(7, []), (8, [''CASSLGYT''])])] ''shared'' =
     Some [(7, []), (8, [''CASSLGYT''])] \<and>
   map_of [(7 :: nat, []), (8, [''CASSLGYT''])] 7 = Some [] \<and>
   entropies_of_length [(''shared'', [(7, []), (8, [''CASSLGYT''])])] ''observed'' ''shared'' [] 7 =
     Inr [] \<and>
   calculate_entropies [(''shared'', [(7, []), (8, [''CASSLGYT''])])] ''observed'' =
     Inr [entropy_row ''observed'' ''shared'' 8 0, entropy_row ''observed'' ''shared'' 8 0] \<and>
   list_all (\<lambda>r. \<not> (shared r = ''shared'' \<and> cdr3_length r = 7))
     [entropy_row ''observed'' ''shared'' 8 0, entropy_row ''observed'' ''shared'' 8 0]"
proof -
  have a: "map_of [(''shared'', [(7 :: nat, []), (8, [''CASSLGYT''])])] ''shared'' =
     Some [(7, []), (8, [''CASSLGYT''])]" by simp
  have b: "map_of [(7 :: nat, []), (8, [''CASSLGYT''])] 7 = Some ([] :: string list)" by simp
  have run: "calculate_entropies [(''shared'', [(7, []), (8, [''CASSLGYT''])])] ''observed'' =
     Inr [entropy_row ''observed'' ''shared'' 8 0, entropy_row ''observed'' ''shared'' 8 0]"
    by (simp add: calculate_entropies_def entropies_of_group_def
        getitem_def empty_bucket_no_record single_bucket_records numeral_2_eq_2)
  note r = empty_bucket_emits_nothing[OF a b, of "''observed''" "[]"]
  from r run have "\<forall>r \<in> set [entropy_row ''observed'' ''shared'' 8 0,
      entropy_row ''observed'' ''shared'' 8 0]. \<not> (shared r = ''shared'' \<and> cdr3_length r = 7)"
    by blast
  with a b r run show ?thesis by (simp add: list_all_iff)
qed

section \<open>Properties of the downselection\<close>

lemma bucket_update:
  "map_of sel s = Some x \<Longrightarrow>
   bucket (AList.update s (AList.update l v x) sel) s' l' =
     (if s' = s \<and> l' = l then Some v else bucket sel s' l')"
  by (simp add: bucket_def update_conv')

lemma keys_update: "map_of sel s = Some x \<Longrightarrow> map fst (AList.update s v sel) = map fst sel"
  by (simp add: update_keys weak_map_of_SomeI domI dom_map_of_conv_image_fst[symmetric])

lemma group_keys_Some:
  "map fst sel = [''shared'', ''unshared''] \<Longrightarrow> s = ''shared'' \<or> s = ''unshared'' \<Longrightarrow>
   \<exists>x. map_of sel s = Some x"
  by (rule map_of_keys_Some) auto

lemma np_random_choice_drawn:
  assumes "n < length b"
  shows "\<exists>b' g'. np_random_choice permutation g b n = Inr (b', g') \<and> drawn permutation b n b'"
proof -
  obtain idx g' where p: "permutation g (length b) = (idx, g')" by (cases "permutation g (length b)")
  with assms have "np_random_choice permutation g b n = Inr (map (\<lambda>i. b ! i) (take n idx), g')"
    by (auto simp: np_random_choice_def)
  moreover from p have "drawn permutation b n (map (\<lambda>i. b ! i) (take n idx))"
    unfolding drawn_def choice_indices_def by (intro exI[of _ g]) simp
  ultimately show ?thesis by blast
qed

lemma select_bucket_step:
  assumes keys: "map fst sel = [''shared'', ''unshared'']"
    and s: "s = ''shared'' \<or> s = ''unshared''"
    and b: "bucket seqs s l = Some b"
  shows "\<exists>sel' g' b'. select_bucket permutation seqs l n (sel, g) s = Inr (sel', g') \<and>
     map fst sel' = [''shared'', ''unshared''] \<and> selected_from permutation b n b' \<and>
     (\<forall>s' l'. bucket sel' s' l' = (if s' = s \<and> l' = l then Some b' else bucket sel s' l'))"
proof -
  from b obtain d where d: "map_of seqs s = Some d" "map_of d l = Some b"
    by (auto simp: bucket_def split: option.splits)
  from group_keys_Some[OF keys s] obtain x where x: "map_of sel s = Some x" by blast
  have "\<exists>b' g'. (if length b > n then np_random_choice permutation g b n else Inr (b, g)) =
      Inr (b', g') \<and> selected_from permutation b n b'"
    using np_random_choice_drawn[of n b permutation g] by (auto simp: selected_from_def)
  then obtain b' g' where c:
    "(if length b > n then np_random_choice permutation g b n else Inr (b, g)) = Inr (b', g')"
    "selected_from permutation b n b'" by blast
  have "select_bucket permutation seqs l n (sel, g) s =
      Inr (AList.update s (AList.update l b' x) sel, g')"
    unfolding select_bucket_def using d x c(1) by (simp add: getitem_def)
  with c(2) keys_update[OF x] keys bucket_update[OF x] show ?thesis by auto
qed

lemma num_seqs_min:
  assumes "bucket seqs ''shared'' l = Some bs" "bucket seqs ''unshared'' l = Some bu"
  shows "num_seqs seqs l = Inr (min (length bs) (length bu))"
  using assms
  by (auto simp: num_seqs_def bucket_len_def getitem_def bucket_def split: option.splits)

lemma select_length_step:
  assumes keys: "map fst sel = [''shared'', ''unshared'']"
    and bs: "bucket seqs ''shared'' l = Some bs" and bu: "bucket seqs ''unshared'' l = Some bu"
  obtains sel' g' bs' bu' where
    "select_length permutation seqs (sel, g) l = Inr (sel', g')"
    "map fst sel' = [''shared'', ''unshared'']"
    "selected_from permutation bs (min (length bs) (length bu)) bs'"
    "selected_from permutation bu (min (length bs) (length bu)) bu'"
    "\<forall>s' l'. bucket sel' s' l' =
        (if l' = l \<and> s' = ''shared'' then Some bs'
         else if l' = l \<and> s' = ''unshared'' then Some bu'
         else bucket sel s' l')"
proof -
  let ?n = "min (length bs) (length bu)"
  from select_bucket_step[OF keys _ bs, of permutation ?n g]
  obtain sel1 g1 bs' where 1:
    "select_bucket permutation seqs l ?n (sel, g) ''shared'' = Inr (sel1, g1)"
    "map fst sel1 = [''shared'', ''unshared'']" "selected_from permutation bs ?n bs'"
    "\<forall>s' l'. bucket sel1 s' l' = (if s' = ''shared'' \<and> l' = l then Some bs' else bucket sel s' l')"
    by auto
  from select_bucket_step[OF 1(2) _ bu, of permutation ?n g1]
  obtain sel2 g2 bu' where 2:
    "select_bucket permutation seqs l ?n (sel1, g1) ''unshared'' = Inr (sel2, g2)"
    "map fst sel2 = [''shared'', ''unshared'']" "selected_from permutation bu ?n bu'"
    "\<forall>s' l'. bucket sel2 s' l' = (if s' = ''unshared'' \<and> l' = l then Some bu' else bucket sel1 s' l')"
    by auto
  have r: "select_length permutation seqs (sel, g) l = Inr (sel2, g2)"
    by (simp add: select_length_def num_seqs_min[OF bs bu] 1(1) 2(1))
  have "\<forall>s' l'. bucket sel2 s' l' =
        (if l' = l \<and> s' = ''shared'' then Some bs'
         else if l' = l \<and> s' = ''unshared'' then Some bu'
         else bucket sel s' l')"
    by (simp add: 1(4) 2(4))
  from that[OF r 2(2) 1(3) 2(3) this] show thesis .
qed

lemma length_selected_cong:
  "\<forall>s. bucket sel2 s l = bucket sel1 s l \<Longrightarrow>
   length_selected permutation seqs sel1 l \<Longrightarrow> length_selected permutation seqs sel2 l"
  by (simp add: length_selected_def)

lemma select_lengths:
  assumes shape: "pools_shape seqs"
  shows "map fst sel = [''shared'', ''unshared''] \<Longrightarrow> set ls \<subseteq> {7..<15} \<Longrightarrow>
     \<exists>sel' g'. for_each (select_length permutation seqs) ls (sel, g) = Inr (sel', g') \<and>
       map fst sel' = [''shared'', ''unshared''] \<and>
       (\<forall>l. if l \<in> set ls then length_selected permutation seqs sel' l
            else (\<forall>s. bucket sel' s l = bucket sel s l))"
proof (induction ls arbitrary: sel g)
  case Nil
  then show ?case by simp
next
  case (Cons l ls)
  from Cons.prems(2) have l: "7 \<le> l" "l < 15" by simp_all
  from bucket_shape_Some[OF shape _ l, of "''shared''"]
  obtain bs where bs: "bucket seqs ''shared'' l = Some bs" by auto
  from bucket_shape_Some[OF shape _ l, of "''unshared''"]
  obtain bu where bu: "bucket seqs ''unshared'' l = Some bu" by auto
  obtain sel1 g1 bs' bu' where 1:
    "select_length permutation seqs (sel, g) l = Inr (sel1, g1)"
    "map fst sel1 = [''shared'', ''unshared'']"
    "selected_from permutation bs (min (length bs) (length bu)) bs'"
    "selected_from permutation bu (min (length bs) (length bu)) bu'"
    "\<forall>s' l'. bucket sel1 s' l' =
        (if l' = l \<and> s' = ''shared'' then Some bs'
         else if l' = l \<and> s' = ''unshared'' then Some bu'
         else bucket sel s' l')"
    by (rule select_length_step[OF Cons.prems(1) bs bu, of permutation g])
  have here: "length_selected permutation seqs sel1 l"
    unfolding length_selected_def using bs bu 1(3,4,5) by simp
  have other: "\<forall>s. bucket sel1 s l' = bucket sel s l'" if "l' \<noteq> l" for l'
    using 1(5) that by simp
  from Cons.prems(2) have "set ls \<subseteq> {7..<15}" by simp
  from Cons.IH[OF 1(2) this, of g1]
  obtain sel2 g2 where 2:
    "for_each (select_length permutation seqs) ls (sel1, g1) = Inr (sel2, g2)"
    "map fst sel2 = [''shared'', ''unshared'']"
    "\<forall>l. if l \<in> set ls then length_selected permutation seqs sel2 l
          else (\<forall>s. bucket sel2 s l = bucket sel1 s l)"
    by (elim exE conjE) (rule that; assumption)
  have run: "for_each (select_length permutation seqs) (l # ls) (sel, g) = Inr (sel2, g2)"
    by (simp add: 1(1) 2(1))
  have "if l' \<in> set (l # ls) then length_selected permutation seqs sel2 l'
        else (\<forall>s. bucket sel2 s l' = bucket sel s l')" for l'
  proof (cases "l' \<in> set ls")
    case True
    with 2(3) show ?thesis by (auto split: if_splits)
  next
    case False
    with 2(3) have eq: "\<forall>s. bucket sel2 s l' = bucket sel1 s l'" by (auto split: if_splits)
    show ?thesis
    proof (cases "l' = l")
      case True
      with length_selected_cong[OF eq] here show ?thesis by simp
    next
      case ne: False
      with eq other[OF ne] False show ?thesis by simp
    qed
  qed
  with run 2(2) show ?case
    by (intro exI[of _ sel2] exI[of _ g2] conjI allI) assumption+
qed



lemma selected_from_0: "selected_from permutation b 0 b' \<Longrightarrow> b' = []"
  by (auto simp: selected_from_def drawn_def choice_indices_def split: if_splits)

lemma balance_pools_lengths:
  assumes "pools_shape seqs"
  shows "\<exists>selected g'. balance_pools permutation seqs g = Inr (selected, g') \<and>
     map fst selected = [''shared'', ''unshared''] \<and>
     (\<forall>l. 7 \<le> l \<and> l \<le> 14 \<longrightarrow> length_selected permutation seqs selected l)"
proof -
  have "set [7..<15] \<subseteq> {7..<15::nat}" by (simp only: set_upt)
  moreover have "map fst [(''shared'', [] :: pool), (''unshared'', [])] = [''shared'', ''unshared'']"
    by simp
  ultimately have "\<exists>sel' g'.
      for_each (select_length permutation seqs) [7..<15]
        ([(''shared'', []), (''unshared'', [])], g) = Inr (sel', g') \<and>
      map fst sel' = [''shared'', ''unshared''] \<and>
      (\<forall>l. if l \<in> set [7..<15] then length_selected permutation seqs sel' l
           else (\<forall>s. bucket sel' s l = bucket [(''shared'', []), (''unshared'', [])] s l))"
    by (rule select_lengths[OF assms, rotated])
  then
  obtain sel' g' where r:
    "for_each (select_length permutation seqs) [7..<15] ([(''shared'', []), (''unshared'', [])], g)
       = Inr (sel', g')"
    "map fst sel' = [''shared'', ''unshared'']"
    "\<forall>l. if l \<in> set [7..<15] then length_selected permutation seqs sel' l
         else (\<forall>s. bucket sel' s l = bucket [(''shared'', []), (''unshared'', [])] s l)"
    by (elim exE conjE) (rule that; assumption)
  have "length_selected permutation seqs sel' l" if "7 \<le> l \<and> l \<le> 14" for l
  proof -
    from that have "l \<in> set [7..<15]" by (simp only: range_7_15) simp
    with r(3) show ?thesis by (auto split: if_splits)
  qed
  then have "\<forall>l. 7 \<le> l \<and> l \<le> 14 \<longrightarrow> length_selected permutation seqs sel' l" by simp
  with r(1,2) show ?thesis
    unfolding balance_pools_def by (intro exI[of _ sel'] exI[of _ g'] conjI) assumption+
qed

subsection \<open>Uniform sampling\<close>









lemma example_pools_shape: "pools_shape example_pools"
  by code_simp

lemma rev_permutation_ok: "is_permutation rev_permutation"
  by (simp add: is_permutation_def rev_permutation_def)

lemma example_pools_balanced:
  "balance_pools rev_permutation example_pools () =
     Inr ([(''shared'', (7, [''TTTTTTA'', ''TTTTTTC'']) # map (\<lambda>i. (i, [])) [8..<15]),
           (''unshared'', (7, [''SSSSSSL'', ''SSSSSSK'']) # map (\<lambda>i. (i, [])) [8..<15])], ())"
  by code_simp



lemma calculate_entropies_groups:
  assumes "calculate_entropies seq_dict t = Inr table"
  shows "\<forall>r \<in> set table. shared r \<in> set (map fst seq_dict)"
proof -
  let ?P = "\<lambda>edata. \<forall>r \<in> set edata. shared r \<in> set (map fst seq_dict)"
  have len: "?P b'"
    if "?P a" "s' \<in> set (map fst seq_dict)" "entropies_of_length seq_dict t s' a l' = Inr b'"
    for a b' s' l'
  proof -
    from entropies_of_length_labels[OF that(3)] obtain new where
      "b' = a @ new" "\<forall>r \<in> set new. shared r = s' \<and> cdr3_length r = l'" by blast
    with that(1,2) show ?thesis by auto
  qed
  have grp: "?P b'"
    if "s' \<in> set (map fst seq_dict)" "?P a" "entropies_of_group seq_dict t a s' = Inr b'"
    for a b' s'
  proof -
    from that(3) obtain d' where "getitem seq_dict s' = Inr d'"
      by (cases "getitem seq_dict s'") (simp_all add: entropies_of_group_def)
    with that(3) have "for_each (entropies_of_length seq_dict t s') (map fst d') a = Inr b'"
      by (simp add: entropies_of_group_def)
    from for_each_invariant[of _ _ _ _ ?P, OF this that(2)] len[OF _ that(1)]
    show ?thesis by blast
  qed
  from assms have "for_each (entropies_of_group seq_dict t) (map fst seq_dict) [] = Inr table"
    by (simp add: calculate_entropies_def)
  from for_each_invariant[of _ _ _ _ ?P, OF this] grp show ?thesis by simp
qed

lemma bucket_SomeD:
  "bucket p s l = Some b \<Longrightarrow> \<exists>d. map_of p s = Some d \<and> map_of d l = Some b"
  by (auto simp: bucket_def split: option.splits)

text \<open>
  C8. For pools as \<open>build_pools\<close> makes them, any generator, and a length from 7 to 14
  at which the shared or the unshared bucket is empty: the minimum is 0, the
  downselection returns, both buckets of that length are empty in its result, the loop of
  \<^verbatim>\<open>calculate_entropies\<close> over such a bucket appends nothing and raises nothing, and
  no record of a table computed from the result has that length.
\<close>

theorem balance_pools_empty_group:
  assumes "pools_shape all_seqs" "7 \<le> l" "l \<le> 14"
    and "bucket all_seqs ''shared'' l = Some [] \<or> bucket all_seqs ''unshared'' l = Some []"
  shows "num_seqs all_seqs l = Inr 0 \<and>
    (\<exists>selected g'. balance_pools permutation all_seqs g = Inr (selected, g') \<and>
       bucket selected ''shared'' l = Some [] \<and> bucket selected ''unshared'' l = Some [] \<and>
       (\<forall>t edata. entropies_of_length selected t ''shared'' edata l = Inr edata \<and>
                  entropies_of_length selected t ''unshared'' edata l = Inr edata) \<and>
       (\<forall>t table. calculate_entropies selected t = Inr table \<longrightarrow>
                  (\<forall>r \<in> set table. cdr3_length r \<noteq> l)))"
proof -
  from balance_pools_lengths[OF assms(1), of permutation g]
  obtain selected g' where r: "balance_pools permutation all_seqs g = Inr (selected, g')"
    "map fst selected = [''shared'', ''unshared'']"
    "\<forall>l. 7 \<le> l \<and> l \<le> 14 \<longrightarrow> length_selected permutation all_seqs selected l"
    by (elim exE conjE) (rule that; assumption)
  from r(3) assms(2,3) obtain bs bu bs' bu' where b:
    "bucket all_seqs ''shared'' l = Some bs" "bucket all_seqs ''unshared'' l = Some bu"
    "bucket selected ''shared'' l = Some bs'" "bucket selected ''unshared'' l = Some bu'"
    "selected_from permutation bs (min (length bs) (length bu)) bs'"
    "selected_from permutation bu (min (length bs) (length bu)) bu'"
    unfolding length_selected_def by blast
  from assms(4) b(1,2) have n: "min (length bs) (length bu) = 0" by auto
  from num_seqs_min[OF b(1,2)] n have n0: "num_seqs all_seqs l = Inr 0" by simp
  from b(5,6) n have e: "bs' = []" "bu' = []" by (simp_all add: selected_from_0)
  from bucket_SomeD[OF b(3)] e(1) obtain ds where
    ds: "map_of selected ''shared'' = Some ds" "map_of ds l = Some []" by blast
  from bucket_SomeD[OF b(4)] e(2) obtain du where
    du: "map_of selected ''unshared'' = Some du" "map_of du l = Some []" by blast
  have loops: "\<forall>t edata. entropies_of_length selected t ''shared'' edata l = Inr edata \<and>
                  entropies_of_length selected t ''unshared'' edata l = Inr edata"
    by (simp add: empty_bucket_no_record[OF ds] empty_bucket_no_record[OF du])
  have none: "\<forall>t table. calculate_entropies selected t = Inr table \<longrightarrow>
                  (\<forall>r \<in> set table. cdr3_length r \<noteq> l)"
  proof (intro allI impI ballI)
    fix t table r
    assume run: "calculate_entropies selected t = Inr table" and "r \<in> set table"
    with calculate_entropies_groups[OF run] r(2)
    have "shared r = ''shared'' \<or> shared r = ''unshared''" by auto
    with calculate_entropies_skips_empty[OF ds run] calculate_entropies_skips_empty[OF du run]
      \<open>r \<in> set table\<close>
    show "cdr3_length r \<noteq> l" by blast
  qed
  from b(3,4) e have be: "bucket selected ''shared'' l = Some []"
    "bucket selected ''unshared'' l = Some []" by simp_all
  from n0 r(1) be loops none show ?thesis
    by (intro conjI exI[of _ selected] exI[of _ g']) assumption+
qed

lemma example_pools_8:
  "bucket example_pools ''shared'' 8 = Some [] \<and>
   bucket example_pools ''unshared'' 8 = Some [''SSSSSSSA'', ''SSSSSSSC'', ''SSSSSSSD'']"
  by code_simp

theorem balance_pools_empty_group_witness:
  "pools_shape example_pools \<and> (7 :: nat) \<le> 8 \<and> (8 :: nat) \<le> 14 \<and>
   bucket example_pools ''shared'' 8 = Some [] \<and>
   bucket example_pools ''unshared'' 8 = Some [''SSSSSSSA'', ''SSSSSSSC'', ''SSSSSSSD''] \<and>
   num_seqs example_pools 8 = Inr 0 \<and>
   np_random_choice rev_permutation () [''SSSSSSSA'', ''SSSSSSSC'', ''SSSSSSSD''] 0 = Inr ([], ()) \<and>
   (\<exists>selected g'. balance_pools rev_permutation example_pools () = Inr (selected, g') \<and>
      bucket selected ''shared'' 8 = Some [] \<and> bucket selected ''unshared'' 8 = Some [] \<and>
      entropies_of_length selected ''observed'' ''unshared'' [] 8 = Inr [])"
proof -
  have a: "bucket example_pools ''shared'' 8 = Some [] \<or>
      bucket example_pools ''unshared'' 8 = Some []"
    using example_pools_8 by simp
  have c: "np_random_choice rev_permutation () [''SSSSSSSA'', ''SSSSSSSC'', ''SSSSSSSD''] 0 =
      Inr ([], ())"
    by (simp add: np_random_choice_def rev_permutation_def)
  from balance_pools_empty_group[OF example_pools_shape _ _ a, of rev_permutation "()"]
  have "num_seqs example_pools 8 = Inr 0 \<and>
   (\<exists>selected g'. balance_pools rev_permutation example_pools () = Inr (selected, g') \<and>
      bucket selected ''shared'' 8 = Some [] \<and> bucket selected ''unshared'' 8 = Some [] \<and>
      entropies_of_length selected ''observed'' ''unshared'' [] 8 = Inr [])"
    by simp blast
  with example_pools_shape example_pools_8 c show ?thesis by simp
qed

end
